theory Spec2Isabelle
  imports Main
begin

chapter \<open>The bootstrap of Plex Media Player (src/main.cpp)\<close>

text \<open>
  A shallow embedding of \<^verbatim>\<open>src/main.cpp\<close>: the redaction of log messages
  (\<^verbatim>\<open>elidePattern\<close>, \<^verbatim>\<open>processLog\<close>), the logger configuration
  (\<^verbatim>\<open>initLogger\<close>, \<^verbatim>\<open>logLevelFromString\<close>, \<^verbatim>\<open>updateLogLevel\<close>), the
  rebuilding of the argument vector (\<^verbatim>\<open>appendCommandLineArguments\<close>) and the control
  flow of \<^verbatim>\<open>main\<close>. A \<^verbatim>\<open>QString\<close> is a \<open>string\<close>, a C++ \<^verbatim>\<open>int\<close> is an
  \<open>int\<close>; the sums the code computes stay inside the 32-bit range whenever
  \<open>length msg + chars \<le> INT_MAX\<close>, which the theorems about arbitrary counts assume.
\<close>

section \<open>Redaction of log messages\<close>

subsection \<open>The two Qt operations the loop uses\<close>

text \<open>
  \<^verbatim>\<open>QString::indexOf(str, from)\<close> (Qt 5, case sensitive): a negative \<open>from\<close> counts from
  the end; the answer is \<open>-1\<close> when \<open>str\<close> no longer fits behind \<open>from\<close>, and otherwise
  the first position at or after \<open>from\<close> where \<open>str\<close> stands, or \<open>-1\<close> when there is none.
  An empty \<open>str\<close> is found at \<open>from\<close> itself. The loop of \<^verbatim>\<open>elidePattern\<close> calls it with
  \<open>0 \<le> from\<close> only; for a \<open>from\<close> before the start of the string even when counted from the
  end the model answers \<open>-1\<close>.
\<close>

fun match_from :: "string \<Rightarrow> string \<Rightarrow> nat option" where
  "match_from sub [] = (if sub = [] then Some 0 else None)"
| "match_from sub (c # cs) =
     (if take (length sub) (c # cs) = sub then Some 0
      else map_option Suc (match_from sub cs))"

definition indexOf :: "string \<Rightarrow> string \<Rightarrow> int \<Rightarrow> int" where
  "indexOf s str from =
     (let l = int (length s);
          sl = int (length str);
          from1 = (if from < 0 then from + l else from)
      in if from1 < 0 \<or> sl + from1 > l then -1
         else (case match_from str (drop (nat from1) s) of
                 None \<Rightarrow> -1
               | Some k \<Rightarrow> from1 + int k))"

text \<open>
  \<^verbatim>\<open>msg[i] = c\<close> on a non-const \<^verbatim>\<open>QString\<close> (Qt 5, \<^verbatim>\<open>QCharRef\<close>): inside the string
  the character is overwritten; at or behind the end the string is first resized to
  \<open>i + 1\<close>, padded with spaces. A negative index is outside the contract of the
  operator; the loop never produces one, and the model leaves the string as it is.
\<close>

definition setAt :: "string \<Rightarrow> int \<Rightarrow> char \<Rightarrow> string" where
  "setAt msg i c =
     (if i < 0 then msg
      else if i < int (length msg) then msg[nat i := c]
      else msg @ replicate (nat i - length msg) (CHR '' '') @ [c])"

subsection \<open>elidePattern and processLog\<close>

text \<open>
  The inner loop \<^verbatim>\<open>for (int n = 0; n < chars; n++) msg[start + n] = QChar('x');\<close>
\<close>

definition fill_x :: "string \<Rightarrow> int \<Rightarrow> int \<Rightarrow> string" where
  "fill_x msg start chars =
     fold (\<lambda>n m. setAt m (start + int n) (CHR ''x'')) [0..<nat chars] msg"

text \<open>
  The outer loop \<^verbatim>\<open>while (true)\<close> of \<^verbatim>\<open>elidePattern\<close>, with the current value of
  \<open>start\<close> as its last argument. The loop need not end (an empty \<open>substring\<close> is found
  again and again at the same place), so the result is an option: \<open>None\<close> is a run
  that never returns.
\<close>

partial_function (option) elideLoop :: "string \<Rightarrow> string \<Rightarrow> int \<Rightarrow> int \<Rightarrow> string option" where
  "elideLoop msg substring chars start =
     (let start1 = indexOf msg substring start in
      if start1 < 0 \<or> start1 + int (length substring) + chars > int (length msg)
      then Some msg
      else (let start2 = start1 + int (length substring)
            in elideLoop (fill_x msg start2 chars) substring chars start2))"

declare elideLoop.simps [code]

definition elidePattern :: "string \<Rightarrow> string \<Rightarrow> int \<Rightarrow> string option" where
  "elidePattern msg substring chars = elideLoop msg substring chars 0"

definition processLog :: "string \<Rightarrow> string option" where
  "processLog msg =
     (case elidePattern msg ''X-Plex-Token='' 20 of
        None \<Rightarrow> None
      | Some msg1 \<Rightarrow> elidePattern msg1 ''X-Plex-Token%3D'' 20)"

definition INT_MAX :: int where
  "INT_MAX = 2147483647"

subsection \<open>What the specification says the redaction does\<close>

text \<open>
  \<open>occurs_at msg pat i\<close>: the pattern stands in \<open>msg\<close> at position \<open>i\<close>.
  \<open>elide_spec\<close> follows the words of the specification, read on the message as it is
  handed in: a character is replaced by \<open>x\<close> exactly when it is one of the \<open>n\<close>
  characters right behind an occurrence of the pattern that has at least \<open>n\<close> characters
  behind it; every other character stays.
\<close>

definition occurs_at :: "string \<Rightarrow> string \<Rightarrow> nat \<Rightarrow> bool" where
  "occurs_at msg pat i = (i + length pat \<le> length msg \<and> take (length pat) (drop i msg) = pat)"

definition masked_by :: "string \<Rightarrow> string \<Rightarrow> nat \<Rightarrow> nat \<Rightarrow> bool" where
  "masked_by msg pat n p =
     (\<exists>i \<in> set [0..<Suc p]. occurs_at msg pat i \<and> i + length pat + n \<le> length msg
        \<and> i + length pat \<le> p \<and> p < i + length pat + n)"

definition elide_spec :: "string \<Rightarrow> string \<Rightarrow> nat \<Rightarrow> string" where
  "elide_spec msg pat n =
     map (\<lambda>p. if masked_by msg pat n p then CHR ''x'' else msg ! p) [0..<length msg]"

text \<open>
  Occurrences that do not interfere: behind an occurrence that gets masked, the next
  occurrence starts only after the masked characters.
\<close>

definition separated :: "string \<Rightarrow> string \<Rightarrow> nat \<Rightarrow> bool" where
  "separated msg pat n =
     (\<forall>i \<in> set [0..<length msg]. \<forall>j \<in> set [0..<length msg].
        occurs_at msg pat i \<and> occurs_at msg pat j \<and> i < j \<and> i + length pat + n \<le> length msg
        \<longrightarrow> i + length pat + n \<le> j)"

text \<open>
  The same for \<^verbatim>\<open>processLog\<close>, which the specification describes for the two configured
  patterns at once: \<open>redact_spec\<close> replaces by \<open>x\<close> exactly the 20 characters right behind
  each occurrence of either pattern that has at least 20 characters behind it.
  \<open>tokens_apart\<close>: the occurrences of the two patterns do not interfere, that is, behind
  an occurrence of either pattern that gets masked, the next occurrence of either pattern
  starts only after the masked characters.
\<close>

definition token_patterns :: "string list" where
  "token_patterns = [''X-Plex-Token='', ''X-Plex-Token%3D'']"

definition redact_spec :: "string \<Rightarrow> string" where
  "redact_spec msg =
     map (\<lambda>p. if (\<exists>pat \<in> set token_patterns. masked_by msg pat 20 p) then CHR ''x'' else msg ! p)
       [0..<length msg]"

definition tokens_apart :: "string \<Rightarrow> bool" where
  "tokens_apart msg =
     (\<forall>pat \<in> set token_patterns. \<forall>pat' \<in> set token_patterns.
      \<forall>i \<in> set [0..<length msg]. \<forall>j \<in> set [0..<length msg].
        occurs_at msg pat i \<and> occurs_at msg pat' j \<and> i < j \<and> i + length pat + 20 \<le> length msg
        \<longrightarrow> i + length pat + 20 \<le> j)"

section \<open>The logger configuration\<close>

text \<open>
  \<^verbatim>\<open>QsLogging::Level\<close>, as \<^verbatim>\<open>logLevelFromString\<close> names its values.
\<close>

datatype log_level =
  TraceLevel | DebugLevel | InfoLevel | WarnLevel | ErrorLevel | FatalLevel | OffLevel

fun logLevelFromString :: "string \<Rightarrow> log_level" where
  "logLevelFromString str =
     (if str = ''trace'' then TraceLevel
      else if str = ''debug'' then DebugLevel
      else if str = ''info'' then InfoLevel
      else if str = ''warn'' then WarnLevel
      else if str = ''error'' then ErrorLevel
      else if str = ''fatal'' then FatalLevel
      else if str = ''disable'' then OffLevel
      else DebugLevel)"

text \<open>
  The arguments \<^verbatim>\<open>initLogger\<close> hands to \<^verbatim>\<open>DestinationFactory::MakeFileDestination\<close>,
  and what it sets on \<^verbatim>\<open>Logger::instance()\<close>. The path of the log file comes from
  \<^verbatim>\<open>Paths::logDir\<close>, a collaborator, and is a parameter here.
\<close>

record file_destination =
  log_path :: string
  rotation_on_open :: bool
  max_size_bytes :: nat
  max_old_log_count :: nat

record logger =
  destinations :: "file_destination list"
  logging_level :: log_level
  processing_callback :: "(string \<Rightarrow> string option) option"
  message_handler_installed :: bool

definition initLogger :: "string \<Rightarrow> logger \<Rightarrow> logger" where
  "initLogger path lg =
     (let dest = \<lparr>log_path = path, rotation_on_open = True,
                   max_size_bytes = 1024 * 1024, max_old_log_count = 9\<rparr>
      in lg\<lparr>destinations := destinations lg @ [dest],
             logging_level := DebugLevel,
             processing_callback := Some processLog,
             message_handler_installed := True\<rparr>)"

text \<open>
  \<^verbatim>\<open>updateLogLevel\<close>: the setting \<^verbatim>\<open>logLevel\<close> of the main section, when it is not empty,
  becomes the logging level.
\<close>

definition updateLogLevel :: "string \<Rightarrow> logger \<Rightarrow> logger" where
  "updateLogLevel setting lg =
     (if setting \<noteq> [] then lg\<lparr>logging_level := logLevelFromString setting\<rparr> else lg)"

subsection \<open>Rotation of the log file\<close>

text \<open>
  Modelled from the spec: the file destination of QsLog (the rotation of the log file
  is not in \<^verbatim>\<open>src/main.cpp\<close>, which only configures it). The specification: ``when the
  active log exceeds the size bound, it is renamed into a rotation slot and a fresh file
  opened; files beyond the retained count are deleted, oldest first''. A log directory
  is the content of the active file and the rotated files, the most recent first.
\<close>

record log_dir =
  active :: string
  rotated :: "string list"

definition rotate :: "file_destination \<Rightarrow> log_dir \<Rightarrow> log_dir" where
  "rotate dest d =
     \<lparr>active = [], rotated = take (max_old_log_count dest) (active d # rotated d)\<rparr>"

definition write_record :: "file_destination \<Rightarrow> string \<Rightarrow> log_dir \<Rightarrow> log_dir" where
  "write_record dest line d =
     (let d1 = d\<lparr>active := active d @ line\<rparr>
      in if length (active d1) > max_size_bytes dest then rotate dest d1 else d1)"

definition write_records :: "file_destination \<Rightarrow> string list \<Rightarrow> log_dir \<Rightarrow> log_dir" where
  "write_records dest lines d = fold (write_record dest) lines d"

section \<open>The command line\<close>

text \<open>
  The build and platform switches of the preprocessor (\<^verbatim>\<open>Q_OS_MAC\<close>, \<^verbatim>\<open>Q_OS_UNIX\<close>,
  \<^verbatim>\<open>Q_OS_WIN32\<close>, \<^verbatim>\<open>KONVERGO_OPENELEC\<close>).
\<close>

record platform =
  q_os_mac :: bool
  q_os_unix :: bool
  q_os_win32 :: bool
  konvergo_openelec :: bool

text \<open>
  \<^verbatim>\<open>appendCommandLineArguments\<close> writes the new vector into \<^verbatim>\<open>static char *newArgs[16]\<close>,
  each argument into a buffer of \<^verbatim>\<open>malloc(256)\<close> bytes filled by \<^verbatim>\<open>strcpy\<close>, with no
  check of either size. A write behind the array or behind a buffer is undefined
  behaviour; the model returns it as an error value.
\<close>

datatype undefined_behaviour = NewArgsOverflow | StrcpyOverflow

text \<open>
  The loop \<^verbatim>\<open>for (iarg = 0; iarg < argList.size(); iarg++)\<close>: \<^verbatim>\<open>strcpy\<close> writes the
  bytes of the argument and the terminating zero.
\<close>

fun copy_args :: "nat \<Rightarrow> string list \<Rightarrow> undefined_behaviour + string list" where
  "copy_args iarg [] = Inr []"
| "copy_args iarg (a # as) =
     (if iarg \<ge> 16 then Inl NewArgsOverflow
      else if length a + 1 > 256 then Inl StrcpyOverflow
      else (case copy_args (Suc iarg) as of
              Inl e \<Rightarrow> Inl e
            | Inr rest \<Rightarrow> Inr (a # rest)))"

text \<open>
  \<^verbatim>\<open>QString(argv[i])\<close> decodes the bytes of an argument as UTF-8 and \<^verbatim>\<open>toStdString()\<close>
  encodes them again. On well-formed UTF-8 the two cancel; what they do together on other
  bytes is Qt's, and is the parameter \<open>utf8_roundtrip\<close>. The result is the new \<open>argv\<close>;
  the new \<open>argc\<close> is its length.
\<close>

definition appendCommandLineArguments ::
  "platform \<Rightarrow> (string \<Rightarrow> string) \<Rightarrow> string list \<Rightarrow> undefined_behaviour + string list" where
  "appendCommandLineArguments pf utf8_roundtrip argv =
     (let argList = map utf8_roundtrip argv;
          argList = (if konvergo_openelec pf then argList @ [''--disable-gpu''] else argList);
          argList = argList @ [''--enable-viewport''];
          argList = argList @ [''--enable-viewport-meta'']
      in copy_args 0 argList)"

section \<open>The control flow of main\<close>

subsection \<open>What a run does and what it meets\<close>

text \<open>
  The procedures of the application that \<^verbatim>\<open>main\<close> calls. Each is code of the
  application and may raise \<^verbatim>\<open>FatalException\<close>. \<open>PreinitQt\<close>, \<open>InitLogger\<close> and
  \<open>UpdateLogLevel\<close> are the functions of \<^verbatim>\<open>main.cpp\<close> of these names: they call into
  \<^verbatim>\<open>Names\<close>, \<^verbatim>\<open>Version\<close>, \<^verbatim>\<open>Paths\<close> and \<^verbatim>\<open>SettingsComponent\<close>.
\<close>

datatype call =
    PreinitQt
  | SetupCrashDumper
  | NewUniqueApplication
  | EnsureUnique
  | NewSignalManager
  | InitLogger
  | CheckForUpdates
  | InitD3DDevice
  | ComponentInitialize
  | ReadRemoteInspector
  | ConnectToHelper
  | UpdateLogLevel
  | LoadUI
  | AppExec
  | Unload
  | DeleteUniqueApplication

text \<open>
  The calls into Qt, QsLog's stream and the C library. They do not raise
  \<^verbatim>\<open>FatalException\<close>, which is a class of the application. \<open>QLog l t\<close> is a line streamed
  to \<^verbatim>\<open>QLOG_INFO()\<close> or \<^verbatim>\<open>QLOG_FATAL()\<close>: \<open>t\<close> is the fixed text of the statement, and
  for the lines of \<^verbatim>\<open>updateLogLevel\<close> and of the handler of \<^verbatim>\<open>FatalException\<close> the value
  streamed after it, behind the space the stream puts between its operands (the quotes
  the stream puts around a \<^verbatim>\<open>QString\<close> are left out). The values that the three lines after
  \<^verbatim>\<open>initLogger()\<close> take from \<^verbatim>\<open>Version\<close> and \<^verbatim>\<open>QSysInfo\<close> are left out.
\<close>

datatype libcall =
    Qputenv string string
  | SetDefaultSurfaceFormat
  | NewGuiApplication "string list"
  | SetWindowIcon string
  | QLog log_level string
  | AppQuit
  | SetlocaleNumericC
  | QtWebEngineInitialize
  | NewQmlApplicationEngine
  | SetContextProperty string string
  | LoadQml string
  | ErrorViewExec

datatype event =
    Stdout string
  | Invoke call
  | Lib libcall

text \<open>
  What a run meets: the platform, which calls raise \<^verbatim>\<open>FatalException\<close> (and with which
  message), and what the collaborators answer.
\<close>

record env = platform +
  raises :: "call \<Rightarrow> string option"
  utf8_roundtrip :: "string \<Rightarrow> string"
  licenses_txt :: string
  ensureUnique_result :: bool
  checkForUpdates_result :: bool
  remoteInspector_setting :: bool
  logLevel_setting :: string
  log_file_path :: string
  exec_result :: int
  tr :: "string \<Rightarrow> string"
  logger0 :: logger

datatype status =
    Running
  | Returned int
  | Thrown string
  | Undefined undefined_behaviour

record run =
  trace :: "event list"
  status :: status
  startHidden :: bool
  newArgv :: "string list"
  ret :: int
  the_logger :: logger

subsection \<open>Statements\<close>

definition lib :: "libcall \<Rightarrow> run \<Rightarrow> run" where
  "lib c s = s\<lparr>trace := trace s @ [Lib c]\<rparr>"

definition stdout :: "string \<Rightarrow> run \<Rightarrow> run" where
  "stdout str s = s\<lparr>trace := trace s @ [Stdout str]\<rparr>"

definition invoke :: "env \<Rightarrow> call \<Rightarrow> run \<Rightarrow> run" where
  "invoke e c s =
     (case raises e c of
        None \<Rightarrow> s\<lparr>trace := trace s @ [Invoke c]\<rparr>
      | Some m \<Rightarrow> s\<lparr>trace := trace s @ [Invoke c], status := Thrown m\<rparr>)"

definition return_with :: "int \<Rightarrow> run \<Rightarrow> run" where
  "return_with c s = s\<lparr>status := Returned c\<rparr>"

text \<open>A statement under a condition of the preprocessor or of an \<^verbatim>\<open>if\<close>.\<close>

definition cond :: "bool \<Rightarrow> (run \<Rightarrow> run) \<Rightarrow> run \<Rightarrow> run" where
  "cond b p s = (if b then p s else s)"

text \<open>
  A block of statements: the next statement runs only while the run has neither
  returned nor raised.
\<close>

fun seq :: "(run \<Rightarrow> run) list \<Rightarrow> run \<Rightarrow> run" where
  "seq [] s = s"
| "seq (p # ps) s = (if status s = Running then seq ps (p s) else s)"

definition EXIT_SUCCESS :: int where
  "EXIT_SUCCESS = 0"

definition newline :: string where
  "newline = [CHR 0x0A]"

subsection \<open>main\<close>

text \<open>
  The loop \<^verbatim>\<open>for (int n = 1; n < argc; n++)\<close> over the arguments behind the program name.
\<close>

fun scan_flags :: "env \<Rightarrow> string list \<Rightarrow> run \<Rightarrow> run" where
  "scan_flags e [] s = s"
| "scan_flags e (a # as) s =
     (if a = ''--licenses''
      then return_with 0 (stdout (licenses_txt e @ newline) s)
      else if a = ''--hidden''
      then scan_flags e as (stdout (''Starting hidden'' @ newline) (s\<lparr>startHidden := True\<rparr>))
      else scan_flags e as s)"

definition append_args :: "env \<Rightarrow> string list \<Rightarrow> run \<Rightarrow> run" where
  "append_args e argv s =
     (case appendCommandLineArguments (platform.truncate e) (utf8_roundtrip e) argv of
        Inl u \<Rightarrow> s\<lparr>status := Undefined u\<rparr>
      | Inr args \<Rightarrow> s\<lparr>newArgv := args\<rparr>)"

text \<open>\<^verbatim>\<open>QGuiApplication app(newArgc, newArgv);\<close>\<close>

definition new_app :: "run \<Rightarrow> run" where
  "new_app s = lib (NewGuiApplication (newArgv s)) s"

text \<open>
  The calls of \<^verbatim>\<open>initLogger()\<close> and \<^verbatim>\<open>updateLogLevel()\<close>, with what they do to the
  logger when they return. (The line \<^verbatim>\<open>qDebug("Logging to %s", ...)\<close> at the head of
  \<^verbatim>\<open>initLogger\<close> goes to Qt's default message handler and is not recorded.)
\<close>

definition set_logger :: "(logger \<Rightarrow> logger) \<Rightarrow> run \<Rightarrow> run" where
  "set_logger f s = s\<lparr>the_logger := f (the_logger s)\<rparr>"

definition init_logger :: "env \<Rightarrow> run \<Rightarrow> run" where
  "init_logger e =
     seq [invoke e InitLogger,
          set_logger (initLogger (log_file_path e))]"

definition update_log_level :: "env \<Rightarrow> run \<Rightarrow> run" where
  "update_log_level e =
     seq [invoke e UpdateLogLevel,
          cond (logLevel_setting e \<noteq> [])
            (lib (QLog InfoLevel (''Setting log level to: '' @ logLevel_setting e))),
          set_logger (updateLogLevel (logLevel_setting e))]"

text \<open>\<^verbatim>\<open>if (!startHidden) KonvergoEngine::Get().loadUI();\<close>\<close>

definition load_ui :: "env \<Rightarrow> run \<Rightarrow> run" where
  "load_ui e s = (if \<not> startHidden s then invoke e LoadUI s else s)"

text \<open>\<^verbatim>\<open>int ret = app.exec();\<close> and \<^verbatim>\<open>return ret;\<close>\<close>

definition set_ret :: "int \<Rightarrow> run \<Rightarrow> run" where
  "set_ret r s = s\<lparr>ret := r\<rparr>"

definition return_ret :: "run \<Rightarrow> run" where
  "return_ret s = return_with (ret s) s"

text \<open>
  The block of \<^verbatim>\<open>try\<close>: the loop over the flags, then the statements of \<open>startup\<close>.
\<close>

definition startup :: "env \<Rightarrow> string list \<Rightarrow> (run \<Rightarrow> run) list" where
  "startup e argv =
     [append_args e argv,
      cond (q_os_mac e)
        (seq [lib (Qputenv ''QT_LOGGING_RULES'' ''qt.network.ssl.warning=false''),
              lib SetDefaultSurfaceFormat]),
      invoke e PreinitQt,
      new_app,
      lib (SetWindowIcon '':/images/icon.png''),
      invoke e SetupCrashDumper,
      invoke e NewUniqueApplication,
      invoke e EnsureUnique,
      cond (\<not> ensureUnique_result e) (return_with EXIT_SUCCESS),
      cond (q_os_unix e) (invoke e NewSignalManager),
      init_logger e,
      lib (QLog InfoLevel ''Starting Plex Media Player version:''),
      lib (QLog InfoLevel ''  Running on: %1 [%2] arch %3''),
      lib (QLog InfoLevel ''  Qt Version:''),
      invoke e CheckForUpdates,
      cond (checkForUpdates_result e) (seq [lib AppQuit, return_with 0]),
      cond (q_os_win32 e) (invoke e InitD3DDevice),
      cond (q_os_unix e) (lib SetlocaleNumericC),
      invoke e ComponentInitialize,
      invoke e ReadRemoteInspector,
      cond (remoteInspector_setting e)
        (lib (Qputenv ''QTWEBENGINE_REMOTE_DEBUGGING'' ''0.0.0.0:9992'')),
      lib QtWebEngineInitialize,
      cond (q_os_unix e) (lib SetlocaleNumericC),
      invoke e ConnectToHelper,
      update_log_level e,
      load_ui e,
      invoke e AppExec,
      set_ret (exec_result e),
      invoke e Unload,
      invoke e DeleteUniqueApplication,
      return_ret]"

definition main_try :: "env \<Rightarrow> string list \<Rightarrow> run \<Rightarrow> run" where
  "main_try e argv = seq (scan_flags e (tl argv) # startup e argv)"

text \<open>The handler \<^verbatim>\<open>catch (FatalException& e)\<close>, for the message \<open>m\<close> of the exception.\<close>

definition catch_FatalException :: "env \<Rightarrow> string list \<Rightarrow> string \<Rightarrow> run \<Rightarrow> run" where
  "catch_FatalException e argv m =
     seq [lib (QLog FatalLevel (''Unhandled FatalException: '' @ m)),
          lib (NewGuiApplication argv),
          lib NewQmlApplicationEngine,
          lib (SetContextProperty ''errorTitle'' (tr e ''A critical error occurred.'')),
          lib (SetContextProperty ''errorText''
                 (m @ ''<br>'' @ tr e ''Please visit Plex support forums for support.'')),
          lib (LoadQml ''qrc:/ui/errormessage.qml''),
          lib ErrorViewExec,
          return_with 1]"

definition initial_run :: "env \<Rightarrow> run" where
  "initial_run e =
     \<lparr>trace = [], status = Running, startHidden = False, newArgv = [], ret = 0,
      the_logger = logger0 e\<rparr>"

definition main :: "env \<Rightarrow> string list \<Rightarrow> run" where
  "main e argv =
     (let s = main_try e argv (initial_run e)
      in case status s of
           Thrown m \<Rightarrow> catch_FatalException e argv m (s\<lparr>status := Running\<rparr>)
         | _ \<Rightarrow> s)"

text \<open>The exit code of the process, when the run returns from \<^verbatim>\<open>main\<close>.\<close>

definition exit_code :: "run \<Rightarrow> int option" where
  "exit_code s = (case status s of Returned c \<Rightarrow> Some c | _ \<Rightarrow> None)"

definition invoked :: "call \<Rightarrow> run \<Rightarrow> bool" where
  "invoked c s = (Invoke c \<in> set (trace s))"

text \<open>A run on Linux in which nothing fails: the only instance, no update.\<close>

definition quiet_env :: env where
  "quiet_env =
     \<lparr>q_os_mac = False, q_os_unix = True, q_os_win32 = False, konvergo_openelec = False,
      raises = (\<lambda>c. None), utf8_roundtrip = (\<lambda>a. a), licenses_txt = ''licenses'',
      ensureUnique_result = True, checkForUpdates_result = False,
      remoteInspector_setting = False, logLevel_setting = [],
      log_file_path = ''Plex Media Player.log'', exec_result = 0, tr = (\<lambda>a. a),
      logger0 = \<lparr>destinations = [], logging_level = InfoLevel,
                  processing_callback = None, message_handler_installed = False\<rparr>\<rparr>"

section \<open>Predicates for the statements about the redaction\<close>

text \<open>
  \<open>mask_at msg a n\<close> is \<open>msg\<close> with the \<open>n\<close> characters from index \<open>a\<close> replaced by \<open>x\<close>: what
  the inner loop of \<^verbatim>\<open>elidePattern\<close> makes of a message it does not extend. \<open>x_run m a n\<close>
  says that \<open>m\<close> holds \<open>n\<close> characters \<open>x\<close> from index \<open>a\<close>; \<open>only_runs m0 m n\<close> that \<open>m\<close> has
  the length of \<open>m0\<close> and differs from it only inside such runs; \<open>redacted m sub n\<close> that
  every occurrence of \<open>sub\<close> in \<open>m\<close> with \<open>n\<close> characters behind it is followed by such a
  run. \<open>scan_inv\<close> and \<open>ref_inv\<close> are the invariants of the loop at the scan position \<open>s\<close>,
  for the property \<open>redacted\<close> and for the equality with \<open>elide_spec\<close>; \<open>sep\<close> is
  \<open>separated\<close> with its quantifiers unbounded.
\<close>

definition mask_at :: "string \<Rightarrow> nat \<Rightarrow> nat \<Rightarrow> string" where
  "mask_at msg a n = take a msg @ replicate n (CHR ''x'') @ drop (a + n) msg"

definition x_run :: "string \<Rightarrow> nat \<Rightarrow> nat \<Rightarrow> bool" where
  "x_run m a n = (a + n \<le> length m \<and> (\<forall>q. a \<le> q \<and> q < a + n \<longrightarrow> m ! q = CHR ''x''))"

definition only_runs :: "string \<Rightarrow> string \<Rightarrow> nat \<Rightarrow> bool" where
  "only_runs m0 m n =
     (length m = length m0 \<and>
      (\<forall>p < length m0. m ! p \<noteq> m0 ! p \<longrightarrow> (\<exists>a. a \<le> p \<and> p < a + n \<and> x_run m a n)))"

definition redacted :: "string \<Rightarrow> string \<Rightarrow> nat \<Rightarrow> bool" where
  "redacted m sub n =
     (\<forall>i. occurs_at m sub i \<and> i + length sub + n \<le> length m \<longrightarrow> x_run m (i + length sub) n)"

definition scan_inv :: "string \<Rightarrow> nat \<Rightarrow> string \<Rightarrow> nat \<Rightarrow> bool" where
  "scan_inv sub n m s =
     ((s = 0 \<or> x_run m s n) \<and>
      (\<forall>i. occurs_at m sub i \<and> i + length sub \<le> s \<and> i + length sub + n \<le> length m
            \<longrightarrow> x_run m (i + length sub) n))"

definition spec_upto :: "string \<Rightarrow> string \<Rightarrow> nat \<Rightarrow> nat \<Rightarrow> nat \<Rightarrow> bool" where
  "spec_upto msg sub n s p =
     (\<exists>i. occurs_at msg sub i \<and> i + length sub + n \<le> length msg \<and> i + length sub \<le> s
          \<and> i + length sub \<le> p \<and> p < i + length sub + n)"

definition ref_inv :: "string \<Rightarrow> string \<Rightarrow> nat \<Rightarrow> string \<Rightarrow> nat \<Rightarrow> bool" where
  "ref_inv msg sub n m s =
     (length m = length msg \<and>
      (\<forall>p < length msg. m ! p = (if spec_upto msg sub n s p then CHR ''x'' else msg ! p)) \<and>
      (s = 0 \<or> (\<exists>i0. occurs_at msg sub i0 \<and> i0 + length sub + n \<le> length msg \<and> s = i0 + length sub)))"

definition sep :: "string \<Rightarrow> string \<Rightarrow> nat \<Rightarrow> bool" where
  "sep msg sub n =
     (\<forall>i j. occurs_at msg sub i \<and> occurs_at msg sub j \<and> i < j \<and> i + length sub + n \<le> length msg
        \<longrightarrow> i + length sub + n \<le> j)"

section \<open>Predicates for the statements about main\<close>

text \<open>
  \<open>handler_events\<close> lists what the handler of \<^verbatim>\<open>FatalException\<close> does. The predicates on
  statements say what one statement, started in a running state, may do: \<open>emits_only E p\<close>
  that \<open>p\<close> only appends events that satisfy \<open>E\<close> and leaves \<^verbatim>\<open>startHidden\<close> alone;
  \<open>passes p\<close> that \<open>p\<close> neither returns nor throws; \<open>emits_phases h p cs\<close> that the phase
  calls \<open>p\<close> appends are exactly \<open>cs\<close>; \<open>honest e p\<close> that \<open>p\<close> lets no exception of a call
  disappear, where \<open>faults_surface e s\<close> says that in \<open>s\<close> every call made that raises in
  \<open>e\<close> has left its exception as the status of the run and is the last event of the run.
\<close>

definition handler_events :: "env \<Rightarrow> string list \<Rightarrow> string \<Rightarrow> event list" where
  "handler_events e argv m =
     [Lib (QLog FatalLevel (''Unhandled FatalException: '' @ m)),
      Lib (NewGuiApplication argv),
      Lib NewQmlApplicationEngine,
      Lib (SetContextProperty ''errorTitle'' (tr e ''A critical error occurred.'')),
      Lib (SetContextProperty ''errorText''
             (m @ ''<br>'' @ tr e ''Please visit Plex support forums for support.'')),
      Lib (LoadQml ''qrc:/ui/errormessage.qml''),
      Lib ErrorViewExec]"

definition emits_only :: "(event \<Rightarrow> bool) \<Rightarrow> (run \<Rightarrow> run) \<Rightarrow> bool" where
  "emits_only E p =
     (\<forall>s. status s = Running \<longrightarrow>
        (\<exists>evs. trace (p s) = trace s @ evs \<and> list_all E evs)
        \<and> startHidden (p s) = startHidden s)"

definition passes :: "(run \<Rightarrow> run) \<Rightarrow> bool" where
  "passes p =
     (\<forall>s. status s = Running \<longrightarrow>
        status (p s) = Running \<and> (\<exists>evs. trace (p s) = trace s @ evs) \<and> ret (p s) = ret s)"

definition phase_calls :: "bool \<Rightarrow> call list" where
  "phase_calls hidden =
     [SetupCrashDumper, EnsureUnique, InitLogger, CheckForUpdates, ComponentInitialize]
     @ (if hidden then [] else [LoadUI]) @ [AppExec, Unload]"

definition is_phase :: "event \<Rightarrow> bool" where
  "is_phase ev = (ev \<in> set (map Invoke (phase_calls False)))"

definition emits_phases :: "bool \<Rightarrow> (run \<Rightarrow> run) \<Rightarrow> call list \<Rightarrow> bool" where
  "emits_phases h p cs =
     (\<forall>s. status s = Running \<and> startHidden s = h \<longrightarrow>
        filter is_phase (trace (p s)) = filter is_phase (trace s) @ map Invoke cs
        \<and> startHidden (p s) = h)"

definition file_dest :: "string \<Rightarrow> logger \<Rightarrow> file_destination" where
  "file_dest path lg = last (destinations (initLogger path lg))"

definition faults_surface :: "env \<Rightarrow> run \<Rightarrow> bool" where
  "faults_surface e s =
     (\<forall>c m. Invoke c \<in> set (trace s) \<and> raises e c = Some m
        \<longrightarrow> status s = Thrown m \<and> last (trace s) = Invoke c)"

definition honest :: "env \<Rightarrow> (run \<Rightarrow> run) \<Rightarrow> bool" where
  "honest e p =
     (\<forall>s. status s = Running \<longrightarrow> faults_surface e s \<longrightarrow> faults_surface e (p s))"

section \<open>Properties of the redaction\<close>

subsection \<open>The scan of elidePattern\<close>

lemma length_mask_at: "a + n \<le> length msg \<Longrightarrow> length (mask_at msg a n) = length msg"
  by (simp add: mask_at_def)

lemma nth_mask_at:
  "a + n \<le> length msg \<Longrightarrow> p < length msg \<Longrightarrow>
   mask_at msg a n ! p = (if a \<le> p \<and> p < a + n then CHR ''x'' else msg ! p)"
  by (auto simp: mask_at_def nth_append)

lemma take_eq_fits: "take (length sub) xs = sub \<Longrightarrow> length sub \<le> length xs"
proof -
  assume a: "take (length sub) xs = sub"
  have "length (take (length sub) xs) = length sub"
    using arg_cong[OF a, of length] .
  then show ?thesis by simp
qed

lemma match_from_Some:
  "match_from sub s = Some k \<Longrightarrow>
     k + length sub \<le> length s \<and> take (length sub) (drop k s) = sub
     \<and> (\<forall>j<k. take (length sub) (drop j s) \<noteq> sub)"
proof (induction s arbitrary: k)
  case Nil
  then show ?case by (simp split: if_splits)
next
  case (Cons c cs)
  show ?case
  proof (cases "take (length sub) (c # cs) = sub")
    case True
    with Cons.prems have k0: "k = 0" by simp
    from True have "length sub \<le> length (c # cs)"
      by (rule take_eq_fits)
    with True k0 show ?thesis by simp
  next
    case False
    with Cons.prems obtain k' where k': "match_from sub cs = Some k'" "k = Suc k'"
      by auto
    from Cons.IH[OF k'(1)] False k'(2) show ?thesis
      by (auto simp: less_Suc_eq_0_disj)
  qed
qed

lemma match_from_None:
  "match_from sub s = None \<Longrightarrow> j \<le> length s \<Longrightarrow> take (length sub) (drop j s) \<noteq> sub"
proof (induction s arbitrary: j)
  case Nil
  then show ?case by (auto split: if_splits)
next
  case (Cons c cs)
  from Cons.prems(1) have a: "take (length sub) (c # cs) \<noteq> sub" and b: "match_from sub cs = None"
    by (auto split: if_splits)
  show ?case
  proof (cases j)
    case 0
    with a show ?thesis by simp
  next
    case (Suc j')
    with Cons.prems(2) Cons.IH[OF b, of j'] show ?thesis by simp
  qed
qed

lemma indexOf_found:
  assumes "indexOf s sub (int st) = f" "0 \<le> f"
  shows "\<exists>k. f = int k \<and> st \<le> k \<and> occurs_at s sub k
           \<and> (\<forall>j. st \<le> j \<and> j < k \<longrightarrow> \<not> occurs_at s sub j)"
proof -
  from assms have fits: "length sub + st \<le> length s"
    by (auto simp: indexOf_def Let_def split: if_splits)
  from assms fits obtain k where k: "match_from sub (drop st s) = Some k" "f = int st + int k"
    by (auto simp: indexOf_def Let_def split: if_splits option.splits)
  from match_from_Some[OF k(1)] have
    a: "k + length sub \<le> length s - st" and b: "take (length sub) (drop (st + k) s) = sub"
    and c: "\<forall>j<k. take (length sub) (drop (st + j) s) \<noteq> sub"
    by (simp_all add: add.commute)
  have "occurs_at s sub (st + k)" using a b fits by (simp add: occurs_at_def)
  moreover have "\<forall>j. st \<le> j \<and> j < st + k \<longrightarrow> \<not> occurs_at s sub j"
  proof (intro allI impI)
    fix j assume j: "st \<le> j \<and> j < st + k"
    then have "j = st + (j - st)" "j - st < k" by auto
    with c show "\<not> occurs_at s sub j" by (metis occurs_at_def)
  qed
  ultimately show ?thesis using k(2) by (intro exI[of _ "st + k"]) simp
qed

lemma indexOf_not_found:
  assumes "indexOf s sub (int st) < 0" "st \<le> j"
  shows "\<not> occurs_at s sub j"
proof
  assume occ: "occurs_at s sub j"
  then have fits: "length sub + st \<le> length s" using assms(2) by (simp add: occurs_at_def)
  with assms(1) have n: "match_from sub (drop st s) = None"
    by (auto simp: indexOf_def Let_def split: if_splits option.splits)
  from occ assms(2) fits have "j - st \<le> length (drop st s)"
    unfolding occurs_at_def length_drop by arith
  from match_from_None[OF n this] occ assms(2) show False
    by (simp add: occurs_at_def)
qed

lemma fold_setAt:
  "k \<le> n \<Longrightarrow> a + n \<le> length msg \<Longrightarrow>
   fold (\<lambda>n m. setAt m (int a + int n) (CHR ''x'')) [0..<k] msg = mask_at msg a k"
proof (induction k)
  case 0
  then show ?case by (simp add: mask_at_def)
next
  case (Suc k)
  then have IH: "fold (\<lambda>n m. setAt m (int a + int n) (CHR ''x'')) [0..<k] msg = mask_at msg a k"
    by simp
  have len: "length (mask_at msg a k) = length msg" using Suc.prems by (simp add: length_mask_at)
  have "setAt (mask_at msg a k) (int a + int k) (CHR ''x'') = (mask_at msg a k)[a + k := CHR ''x'']"
    using Suc.prems len by (simp add: setAt_def nat_add_distrib)
  also have "\<dots> = mask_at msg a (Suc k)"
    using Suc.prems len
    by (intro nth_equalityI) (auto simp: nth_mask_at length_mask_at nth_list_update)
  finally show ?case using IH by simp
qed

lemma fill_x_mask_at:
  "int a + chars \<le> int (length msg) \<Longrightarrow> fill_x msg (int a) chars = mask_at msg a (nat chars)"
proof -
  assume a: "int a + chars \<le> int (length msg)"
  show ?thesis
  proof (cases "chars \<le> 0")
    case True
    then show ?thesis by (simp add: fill_x_def mask_at_def)
  next
    case False
    with a have "a + nat chars \<le> length msg" by arith
    then show ?thesis
      unfolding fill_x_def by (intro fold_setAt[where n = "nat chars"]) simp_all
  qed
qed

lemma mask_at_fits:
  "occurs_at m sub f \<Longrightarrow> int f + int (length sub) + chars \<le> int (length m) \<Longrightarrow>
   f + length sub + nat chars \<le> length m"
  unfolding occurs_at_def by arith

lemma elideLoop_rule:
  fixes I :: "string \<Rightarrow> nat \<Rightarrow> bool"
  assumes ne: "sub \<noteq> []"
    and I0: "I msg s" and s: "s \<le> length msg"
    and step: "\<And>m s f. \<lbrakk>I m s; s \<le> length m; s \<le> f; occurs_at m sub f;
                 \<forall>j. s \<le> j \<and> j < f \<longrightarrow> \<not> occurs_at m sub j;
                 int f + int (length sub) + chars \<le> int (length m)\<rbrakk>
               \<Longrightarrow> I (mask_at m (f + length sub) (nat chars)) (f + length sub)"
    and fin: "\<And>m s. \<lbrakk>I m s; s \<le> length m;
                 \<forall>f. s \<le> f \<and> occurs_at m sub f \<longrightarrow> int (length m) < int f + int (length sub) + chars\<rbrakk>
               \<Longrightarrow> Q m"
  shows "\<exists>r. elideLoop msg sub chars (int s) = Some r \<and> Q r"
  using I0 s
proof (induction "length msg - s" arbitrary: msg s rule: less_induct)
  case less
  define f where "f = indexOf msg sub (int s)"
  show ?case
  proof (cases "f < 0")
    case True
    then have "\<forall>j. s \<le> j \<longrightarrow> \<not> occurs_at msg sub j"
      using indexOf_not_found[of msg sub s] by (simp add: f_def)
    then have "Q msg" using fin[OF less.prems] by blast
    moreover have "elideLoop msg sub chars (int s) = Some msg"
      using True by (subst elideLoop.simps) (simp add: f_def Let_def)
    ultimately show ?thesis by simp
  next
    case False
    then obtain k where k: "f = int k" "s \<le> k" "occurs_at msg sub k"
        "\<forall>j. s \<le> j \<and> j < k \<longrightarrow> \<not> occurs_at msg sub j"
      using indexOf_found[of msg sub s f] by (auto simp: f_def)
    show ?thesis
    proof (cases "int k + int (length sub) + chars > int (length msg)")
      case True
      have "\<forall>g. s \<le> g \<and> occurs_at msg sub g \<longrightarrow> int (length msg) < int g + int (length sub) + chars"
      proof (intro allI impI)
        fix g assume g: "s \<le> g \<and> occurs_at msg sub g"
        with k(4) have "k \<le> g" by (meson not_le_imp_less)
        with True show "int (length msg) < int g + int (length sub) + chars" by linarith
      qed
      then have "Q msg" using fin[OF less.prems] by blast
      moreover have "elideLoop msg sub chars (int s) = Some msg"
        using True k(1) by (subst elideLoop.simps) (simp add: f_def[symmetric] Let_def)
      ultimately show ?thesis by simp
    next
      case False
      then have room: "int k + int (length sub) + chars \<le> int (length msg)" by simp
      let ?m = "mask_at msg (k + length sub) (nat chars)"
      have fits: "k + length sub + nat chars \<le> length msg"
        using mask_at_fits[OF k(3) room] .
      have len: "length ?m = length msg" using fits by (simp add: length_mask_at)
      have I': "I ?m (k + length sub)"
        using step[OF less.prems k(2) k(3) k(4) room] .
      have "length sub > 0" using ne by simp
      then have dec: "length ?m - (k + length sub) < length msg - s"
        using len fits k(2) by linarith
      have le: "k + length sub \<le> length ?m" using len fits by linarith
      from less.hyps[OF dec I' le] obtain r where
        r: "elideLoop ?m sub chars (int (k + length sub)) = Some r" "Q r" by blast
      have fx: "fill_x msg (int k + int (length sub)) chars = ?m"
        using fill_x_mask_at[of "k + length sub" chars msg] room by simp
      have "elideLoop msg sub chars (int s) = Some r"
        using False k(1) r(1) fx
        by (subst elideLoop.simps) (simp add: f_def[symmetric] Let_def)
      with r(2) show ?thesis by simp
    qed
  qed
qed

lemma x_run_mask_at_new:
  "a + n \<le> length m \<Longrightarrow> x_run (mask_at m a n) a n"
  by (simp add: x_run_def length_mask_at nth_mask_at)

lemma x_run_mask_at_old:
  "x_run m a n \<Longrightarrow> b + k \<le> length m \<Longrightarrow> x_run (mask_at m b k) a n"
  by (simp add: x_run_def length_mask_at nth_mask_at)

lemma only_runs_refl: "only_runs m m n"
  by (simp add: only_runs_def)

lemma only_runs_step:
  assumes "only_runs m0 m n" "a + n \<le> length m"
  shows "only_runs m0 (mask_at m a n) n"
  unfolding only_runs_def
proof (intro conjI allI impI)
  show "length (mask_at m a n) = length m0"
    using assms by (simp add: only_runs_def length_mask_at)
next
  fix p assume p: "p < length m0" and ne: "mask_at m a n ! p \<noteq> m0 ! p"
  have len: "length m = length m0" using assms(1) by (simp add: only_runs_def)
  show "\<exists>b\<le>p. p < b + n \<and> x_run (mask_at m a n) b n"
  proof (cases "a \<le> p \<and> p < a + n")
    case True
    then show ?thesis using x_run_mask_at_new[OF assms(2)] by blast
  next
    case False
    then have "mask_at m a n ! p = m ! p"
      using p len assms(2) by (auto simp: nth_mask_at)
    with ne have "m ! p \<noteq> m0 ! p" by simp
    with assms(1) p obtain b where "b \<le> p" "p < b + n" "x_run m b n"
      by (auto simp: only_runs_def)
    then show ?thesis using x_run_mask_at_old[OF _ assms(2)] by blast
  qed
qed

lemma elideLoop_only_runs:
  assumes "sub \<noteq> []" "s \<le> length msg"
  shows "\<exists>r. elideLoop msg sub chars (int s) = Some r \<and> only_runs msg r (nat chars)"
proof (rule elideLoop_rule[where I = "\<lambda>m s. only_runs msg m (nat chars)"])
  show "sub \<noteq> []" by fact
  show "only_runs msg msg (nat chars)" by (rule only_runs_refl)
  show "s \<le> length msg" by fact
next
  fix m s f
  assume a: "only_runs msg m (nat chars)" "occurs_at m sub f"
    "int f + int (length sub) + chars \<le> int (length m)"
  have "f + length sub + nat chars \<le> length m" using mask_at_fits[OF a(2) a(3)] .
  then show "only_runs msg (mask_at m (f + length sub) (nat chars)) (nat chars)"
    using only_runs_step[OF a(1)] by simp
qed

lemma elidePattern_only_runs:
  "sub \<noteq> [] \<Longrightarrow> \<exists>r. elidePattern msg sub chars = Some r \<and> only_runs msg r (nat chars)"
  using elideLoop_only_runs[of sub 0 msg chars] by (simp add: elidePattern_def)

lemma occurs_at_nth_iff:
  "occurs_at m sub i \<longleftrightarrow> i + length sub \<le> length m \<and> (\<forall>q < length sub. m ! (i + q) = sub ! q)"
proof (cases "i + length sub \<le> length m")
  case True
  then have "take (length sub) (drop i m) = sub \<longleftrightarrow> (\<forall>q < length sub. m ! (i + q) = sub ! q)"
    by (auto simp: list_eq_iff_nth_eq)
  with True show ?thesis by (simp add: occurs_at_def)
next
  case False
  then show ?thesis by (simp add: occurs_at_def)
qed

lemma occurs_at_mask_at_before:
  assumes "a + n \<le> length m" "i + length sub \<le> a"
  shows "occurs_at (mask_at m a n) sub i = occurs_at m sub i"
  using assms by (auto simp: occurs_at_nth_iff length_mask_at nth_mask_at)

lemma occurs_at_last:
  assumes "occurs_at m sub i" "sub \<noteq> []"
  shows "m ! (i + length sub - 1) = last sub"
proof -
  have "length sub - 1 < length sub" using assms(2) by simp
  with assms(1) have "m ! (i + (length sub - 1)) = sub ! (length sub - 1)"
    unfolding occurs_at_nth_iff by blast
  moreover have "i + (length sub - 1) = i + length sub - 1" using assms(2) by (cases sub) auto
  ultimately show ?thesis using assms(2) by (simp add: last_conv_nth)
qed

lemma no_straddler:
  assumes ne: "sub \<noteq> []" and lst: "last sub \<noteq> CHR ''x''" and n: "length sub \<le> Suc n"
    and run: "x_run m s n" and occ: "occurs_at m sub i" and lt: "i < s" "s < i + length sub"
  shows False
proof -
  have "s \<le> i + length sub - 1" "i + length sub - 1 < s + n" using lt n by linarith+
  with run have "m ! (i + length sub - 1) = CHR ''x''" by (simp add: x_run_def)
  with occurs_at_last[OF occ ne] lst show False by simp
qed

lemma scan_inv_step:
  assumes ne: "sub \<noteq> []" and lst: "last sub \<noteq> CHR ''x''" and n: "length sub \<le> Suc n"
    and inv: "scan_inv sub n m s"
    and sf: "s \<le> f" and occ: "occurs_at m sub f"
    and first: "\<forall>j. s \<le> j \<and> j < f \<longrightarrow> \<not> occurs_at m sub j"
    and fits: "f + length sub + n \<le> length m"
  shows "scan_inv sub n (mask_at m (f + length sub) n) (f + length sub)"
  unfolding scan_inv_def
proof (intro conjI allI impI)
  show "f + length sub = 0 \<or> x_run (mask_at m (f + length sub) n) (f + length sub) n"
    using x_run_mask_at_new[of "f + length sub" n m] fits by simp
next
  fix i
  assume h: "occurs_at (mask_at m (f + length sub) n) sub i \<and> i + length sub \<le> f + length sub
    \<and> i + length sub + n \<le> length (mask_at m (f + length sub) n)"
  then have le: "i \<le> f" by simp
  have oi: "occurs_at m sub i"
    using h occurs_at_mask_at_before[of "f + length sub" n m i sub] fits by simp
  have room: "i + length sub + n \<le> length m" using h fits by (simp add: length_mask_at)
  show "x_run (mask_at m (f + length sub) n) (i + length sub) n"
  proof (cases "i = f")
    case True
    then show ?thesis using x_run_mask_at_new[of "f + length sub" n m] fits by simp
  next
    case False
    with le first oi have lts: "i < s" by (meson le_neq_implies_less not_le_imp_less)
    have "i + length sub \<le> s"
    proof (rule ccontr)
      assume "\<not> i + length sub \<le> s"
      then have st: "s < i + length sub" by simp
      from lts have "s \<noteq> 0" by simp
      with inv have "x_run m s n" by (simp add: scan_inv_def)
      from no_straddler[OF ne lst n this oi lts st] show False .
    qed
    with inv oi room have "x_run m (i + length sub) n" by (simp add: scan_inv_def)
    then show ?thesis using x_run_mask_at_old fits by blast
  qed
qed

lemma scan_inv_fin:
  assumes ne: "sub \<noteq> []" and lst: "last sub \<noteq> CHR ''x''" and n: "length sub \<le> Suc n"
    and inv: "scan_inv sub n m s"
    and noroom: "\<forall>f. s \<le> f \<and> occurs_at m sub f \<longrightarrow> length m < f + length sub + n"
  shows "redacted m sub n"
  unfolding redacted_def
proof (intro allI impI)
  fix i assume h: "occurs_at m sub i \<and> i + length sub + n \<le> length m"
  with noroom have lts: "i < s" by (meson not_le_imp_less leD)
  have "i + length sub \<le> s"
  proof (rule ccontr)
    assume "\<not> i + length sub \<le> s"
    then have st: "s < i + length sub" by simp
    from lts have "s \<noteq> 0" by simp
    with inv have "x_run m s n" by (simp add: scan_inv_def)
    from no_straddler[OF ne lst n this _ lts st] h show False by blast
  qed
  with inv h show "x_run m (i + length sub) n" by (simp add: scan_inv_def)
qed

lemma elidePattern_redacted:
  assumes ne: "sub \<noteq> []" and lst: "last sub \<noteq> CHR ''x''"
    and n: "int (length sub) \<le> chars + 1"
  shows "\<exists>r. elidePattern msg sub chars = Some r \<and> redacted r sub (nat chars)"
  unfolding elidePattern_def
proof -
  have c0: "0 \<le> chars" using n ne by (cases sub) auto
  have n': "length sub \<le> Suc (nat chars)" using n by linarith
  have "\<exists>r. elideLoop msg sub chars (int 0) = Some r \<and> redacted r sub (nat chars)"
  proof (rule elideLoop_rule[where I = "scan_inv sub (nat chars)"])
    show "sub \<noteq> []" by fact
    show "scan_inv sub (nat chars) msg 0" using ne by (simp add: scan_inv_def)
    show "0 \<le> length msg" by simp
  next
    fix m s f
    assume a: "scan_inv sub (nat chars) m s" "s \<le> f" "occurs_at m sub f"
      "\<forall>j. s \<le> j \<and> j < f \<longrightarrow> \<not> occurs_at m sub j"
      "int f + int (length sub) + chars \<le> int (length m)"
    have "f + length sub + nat chars \<le> length m" using mask_at_fits[OF a(3) a(5)] .
    from scan_inv_step[OF ne lst n' a(1) a(2) a(3) a(4) this]
    show "scan_inv sub (nat chars) (mask_at m (f + length sub) (nat chars)) (f + length sub)" .
  next
    fix m s
    assume a: "scan_inv sub (nat chars) m s"
      "\<forall>f. s \<le> f \<and> occurs_at m sub f \<longrightarrow> int (length m) < int f + int (length sub) + chars"
    have "\<forall>f. s \<le> f \<and> occurs_at m sub f \<longrightarrow> length m < f + length sub + nat chars"
    proof (intro allI impI)
      fix f assume "s \<le> f \<and> occurs_at m sub f"
      with a(2) have "int (length m) < int f + int (length sub) + chars" by blast
      with c0 show "length m < f + length sub + nat chars" by linarith
    qed
    from scan_inv_fin[OF ne lst n' a(1) this] show "redacted m sub (nat chars)" .
  qed
  then show "\<exists>r. elideLoop msg sub chars 0 = Some r \<and> redacted r sub (nat chars)" by simp
qed

lemma occurs_at_hd:
  assumes "occurs_at m sub i" "sub \<noteq> []"
  shows "m ! i = hd sub"
proof -
  have "0 < length sub" using assms(2) by simp
  with assms(1) have "m ! (i + 0) = sub ! 0" unfolding occurs_at_nth_iff by blast
  then show ?thesis using assms(2) by (simp add: hd_conv_nth)
qed

lemma run_misses_occurrence:
  assumes ne: "sub \<noteq> []" and h: "hd sub \<noteq> CHR ''x''" and lst: "last sub \<noteq> CHR ''x''"
    and n: "length sub \<le> Suc n" and run: "x_run m a n" and occ: "occurs_at m sub i"
  shows "a + n \<le> i \<or> i + length sub \<le> a"
proof (rule ccontr)
  assume "\<not> (a + n \<le> i \<or> i + length sub \<le> a)"
  then have ov: "i < a + n" "a < i + length sub" by simp_all
  show False
  proof (cases "a \<le> i")
    case True
    with ov run have "m ! i = CHR ''x''" by (simp add: x_run_def)
    with occurs_at_hd[OF occ ne] h show False by simp
  next
    case False
    then have "i < a" by simp
    from no_straddler[OF ne lst n run occ this ov(2)] show False .
  qed
qed

lemma only_runs_keeps_x:
  assumes "only_runs m0 m n" "p < length m0" "m0 ! p = CHR ''x''"
  shows "m ! p = CHR ''x''"
proof (rule ccontr)
  assume a: "m ! p \<noteq> CHR ''x''"
  with assms have "m ! p \<noteq> m0 ! p" by simp
  with assms(1,2) obtain b where "b \<le> p" "p < b + n" "x_run m b n"
    by (auto simp: only_runs_def)
  then have "m ! p = CHR ''x''" by (simp add: x_run_def)
  with a show False by simp
qed

lemma only_runs_keeps_run:
  assumes "only_runs m0 m n" "x_run m0 a k"
  shows "x_run m a k"
  using assms only_runs_keeps_x[OF assms(1)]
  by (auto simp: x_run_def only_runs_def)

lemma only_runs_occurrence_back:
  assumes ne: "sub \<noteq> []" and h: "hd sub \<noteq> CHR ''x''" and lst: "last sub \<noteq> CHR ''x''"
    and n: "length sub \<le> Suc n" and runs: "only_runs m0 m n" and occ: "occurs_at m sub i"
  shows "occurs_at m0 sub i"
proof -
  have len: "length m = length m0" using runs by (simp add: only_runs_def)
  have "\<forall>q < length sub. m0 ! (i + q) = sub ! q"
  proof (intro allI impI)
    fix q assume q: "q < length sub"
    from occ q have in_m: "m ! (i + q) = sub ! q" and fits: "i + length sub \<le> length m"
      unfolding occurs_at_nth_iff by blast+
    have "m ! (i + q) = m0 ! (i + q)"
    proof (rule ccontr)
      assume "m ! (i + q) \<noteq> m0 ! (i + q)"
      moreover have "i + q < length m0" using q fits len by linarith
      ultimately obtain b where b: "b \<le> i + q" "i + q < b + n" "x_run m b n"
        using runs by (auto simp: only_runs_def)
      from run_misses_occurrence[OF ne h lst n b(3) occ] b(1,2) q show False by linarith
    qed
    with in_m show "m0 ! (i + q) = sub ! q" by simp
  qed
  with occ len show ?thesis unfolding occurs_at_nth_iff by simp
qed

lemma redacted_preserved:
  assumes ne: "sub \<noteq> []" and h: "hd sub \<noteq> CHR ''x''" and lst: "last sub \<noteq> CHR ''x''"
    and n: "length sub \<le> Suc n" and runs: "only_runs m0 m n" and red: "redacted m0 sub k"
  shows "redacted m sub k"
  unfolding redacted_def
proof (intro allI impI)
  fix i assume a: "occurs_at m sub i \<and> i + length sub + k \<le> length m"
  have len: "length m = length m0" using runs by (simp add: only_runs_def)
  from a only_runs_occurrence_back[OF ne h lst n runs] have "occurs_at m0 sub i" by blast
  with red a len have "x_run m0 (i + length sub) k" by (simp add: redacted_def)
  then show "x_run m (i + length sub) k" by (rule only_runs_keeps_run[OF runs])
qed

lemma only_runs_trans:
  assumes "only_runs m0 m1 n" "only_runs m1 m2 n"
  shows "only_runs m0 m2 n"
  unfolding only_runs_def
proof (intro conjI allI impI)
  show "length m2 = length m0" using assms by (simp add: only_runs_def)
next
  fix p assume p: "p < length m0" and ne: "m2 ! p \<noteq> m0 ! p"
  have len: "length m1 = length m0" using assms by (simp add: only_runs_def)
  show "\<exists>a\<le>p. p < a + n \<and> x_run m2 a n"
  proof (cases "m2 ! p = m1 ! p")
    case True
    with ne p assms(1) obtain a where "a \<le> p" "p < a + n" "x_run m1 a n"
      by (auto simp: only_runs_def)
    then show ?thesis using only_runs_keeps_run[OF assms(2)] by blast
  next
    case False
    with p len assms(2) show ?thesis by (auto simp: only_runs_def)
  qed
qed

lemma processLog_redacts:
  "\<exists>r. processLog msg = Some r \<and> only_runs msg r 20
       \<and> redacted r ''X-Plex-Token='' 20 \<and> redacted r ''X-Plex-Token%3D'' 20"
proof -
  obtain r1 where r1: "elidePattern msg ''X-Plex-Token='' 20 = Some r1"
      "redacted r1 ''X-Plex-Token='' (nat 20)"
    using elidePattern_redacted[of "''X-Plex-Token=''" 20 msg] by auto
  have o1: "only_runs msg r1 (nat 20)"
    using elidePattern_only_runs[of "''X-Plex-Token=''" msg 20] r1(1) by auto
  obtain r2 where r2: "elidePattern r1 ''X-Plex-Token%3D'' 20 = Some r2"
      "redacted r2 ''X-Plex-Token%3D'' (nat 20)"
    using elidePattern_redacted[of "''X-Plex-Token%3D''" 20 r1] by auto
  have o2: "only_runs r1 r2 (nat 20)"
    using elidePattern_only_runs[of "''X-Plex-Token%3D''" r1 20] r2(1) by auto
  have "redacted r2 ''X-Plex-Token='' (nat 20)"
    by (rule redacted_preserved[OF _ _ _ _ o2 r1(2)]) simp_all
  moreover have "processLog msg = Some r2" using r1(1) r2(1) by (simp add: processLog_def)
  moreover have "only_runs msg r2 (nat 20)" using only_runs_trans[OF o1 o2] .
  ultimately show ?thesis using r2(2) by simp
qed

lemma separated_sep:
  assumes "sub \<noteq> []" "separated msg sub n"
  shows "sep msg sub n"
  unfolding sep_def
proof (intro allI impI)
  fix i j
  assume a: "occurs_at msg sub i \<and> occurs_at msg sub j \<and> i < j \<and> i + length sub + n \<le> length msg"
  have "0 < length sub" using assms(1) by simp
  moreover from a have "i + length sub \<le> length msg" "j + length sub \<le> length msg"
    by (simp_all add: occurs_at_def)
  ultimately have "i < length msg" "j < length msg" by linarith+
  with assms(2) a show "i + length sub + n \<le> j"
    unfolding separated_def by (simp add: Ball_def)
qed

lemma masked_by_iff:
  "masked_by msg sub n p \<longleftrightarrow>
     (\<exists>i. occurs_at msg sub i \<and> i + length sub + n \<le> length msg
          \<and> i + length sub \<le> p \<and> p < i + length sub + n)"
proof
  assume "masked_by msg sub n p"
  then show "\<exists>i. occurs_at msg sub i \<and> i + length sub + n \<le> length msg
          \<and> i + length sub \<le> p \<and> p < i + length sub + n"
    unfolding masked_by_def by blast
next
  assume "\<exists>i. occurs_at msg sub i \<and> i + length sub + n \<le> length msg
          \<and> i + length sub \<le> p \<and> p < i + length sub + n"
  then obtain i where i: "occurs_at msg sub i" "i + length sub + n \<le> length msg"
      "i + length sub \<le> p" "p < i + length sub + n" by blast
  from i(3) have "i < Suc p" by linarith
  then have "i \<in> set [0..<Suc p]" by (simp only: set_upt atLeast0LessThan lessThan_iff)
  with i show "masked_by msg sub n p" unfolding masked_by_def by blast
qed

lemma ref_key1:
  assumes inv: "ref_inv msg sub n m s" and sp: "sep msg sub n" and ne: "sub \<noteq> []"
    and si: "s \<le> i" and occ: "occurs_at msg sub i"
  shows "occurs_at m sub i"
proof -
  have len: "length m = length msg" using inv by (simp add: ref_inv_def)
  have fits: "i + length sub \<le> length msg" using occ by (simp add: occurs_at_def)
  have pos: "0 < length sub" using ne by simp
  have "\<forall>q < length sub. m ! (i + q) = sub ! q"
  proof (intro allI impI)
    fix q assume q: "q < length sub"
    have "\<not> spec_upto msg sub n s (i + q)"
    proof
      assume "spec_upto msg sub n s (i + q)"
      then obtain i1 where i1: "occurs_at msg sub i1" "i1 + length sub + n \<le> length msg"
          "i1 + length sub \<le> s" "i + q < i1 + length sub + n"
        by (auto simp: spec_upto_def)
      from i1(3) si pos have "i1 < i" by linarith
      with sp i1(1,2) occ have "i1 + length sub + n \<le> i" unfolding sep_def by blast
      with i1(4) show False by linarith
    qed
    moreover have "i + q < length msg" using q fits by linarith
    ultimately have "m ! (i + q) = msg ! (i + q)" using inv by (simp add: ref_inv_def)
    with occ q show "m ! (i + q) = sub ! q" unfolding occurs_at_nth_iff by simp
  qed
  with fits len show ?thesis unfolding occurs_at_nth_iff by simp
qed

lemma ref_key2:
  assumes inv: "ref_inv msg sub n m s" and h: "hd sub \<noteq> CHR ''x''" and ne: "sub \<noteq> []"
    and sf: "s \<le> f" and occ: "occurs_at m sub f"
  shows "occurs_at msg sub f"
proof -
  have len: "length m = length msg" using inv by (simp add: ref_inv_def)
  have fits: "f + length sub \<le> length msg" using occ len by (simp add: occurs_at_def)
  have pos: "0 < length sub" using ne by simp
  have nf: "\<not> spec_upto msg sub n s f"
  proof
    assume "spec_upto msg sub n s f"
    moreover have "f < length msg" using fits pos by linarith
    ultimately have "m ! f = CHR ''x''" using inv by (simp add: ref_inv_def)
    with occurs_at_hd[OF occ ne] h show False by simp
  qed
  have "\<forall>q < length sub. msg ! (f + q) = sub ! q"
  proof (intro allI impI)
    fix q assume q: "q < length sub"
    have "\<not> spec_upto msg sub n s (f + q)"
    proof
      assume "spec_upto msg sub n s (f + q)"
      then obtain i1 where i1: "occurs_at msg sub i1" "i1 + length sub + n \<le> length msg"
          "i1 + length sub \<le> s" "f + q < i1 + length sub + n"
        by (auto simp: spec_upto_def)
      have "spec_upto msg sub n s f"
        unfolding spec_upto_def
      proof (intro exI[of _ i1] conjI)
        show "i1 + length sub \<le> f" using i1(3) sf by linarith
        show "f < i1 + length sub + n" using i1(4) by linarith
      qed (use i1 in simp_all)
      with nf show False by simp
    qed
    moreover have "f + q < length msg" using q fits by linarith
    ultimately have "m ! (f + q) = msg ! (f + q)" using inv by (simp add: ref_inv_def)
    with occ q show "msg ! (f + q) = sub ! q" unfolding occurs_at_nth_iff by simp
  qed
  with fits show ?thesis unfolding occurs_at_nth_iff by simp
qed

lemma ref_key3:
  assumes inv: "ref_inv msg sub n m s" and sp: "sep msg sub n"
    and occ: "occurs_at msg sub i" and st: "s < i + length sub"
  shows "s \<le> i"
proof (rule ccontr)
  assume "\<not> s \<le> i"
  then have lt: "i < s" by simp
  then have "s \<noteq> 0" by simp
  with inv obtain i0 where i0: "occurs_at msg sub i0" "i0 + length sub + n \<le> length msg"
      "s = i0 + length sub"
    by (auto simp: ref_inv_def)
  with st have "i0 < i" by simp
  with sp i0(1,2) occ have "i0 + length sub + n \<le> i" unfolding sep_def by blast
  with i0(3) lt show False by linarith
qed

lemma ref_inv_step:
  assumes ne: "sub \<noteq> []" and h: "hd sub \<noteq> CHR ''x''" and sp: "sep msg sub n"
    and inv: "ref_inv msg sub n m s"
    and sf: "s \<le> f" and occ: "occurs_at m sub f"
    and first: "\<forall>j. s \<le> j \<and> j < f \<longrightarrow> \<not> occurs_at m sub j"
    and fits: "f + length sub + n \<le> length m"
  shows "ref_inv msg sub n (mask_at m (f + length sub) n) (f + length sub)"
proof -
  have len: "length m = length msg" using inv by (simp add: ref_inv_def)
  have occ0: "occurs_at msg sub f" using ref_key2[OF inv h ne sf occ] .
  have room: "f + length sub + n \<le> length msg" using fits len by simp
  have upto: "spec_upto msg sub n (f + length sub) p \<longleftrightarrow>
      (f + length sub \<le> p \<and> p < f + length sub + n) \<or> spec_upto msg sub n s p" for p
  proof
    assume "spec_upto msg sub n (f + length sub) p"
    then obtain i where i: "occurs_at msg sub i" "i + length sub + n \<le> length msg"
        "i + length sub \<le> f + length sub" "i + length sub \<le> p" "p < i + length sub + n"
      by (auto simp: spec_upto_def)
    show "(f + length sub \<le> p \<and> p < f + length sub + n) \<or> spec_upto msg sub n s p"
    proof (cases "i = f")
      case True
      with i show ?thesis by simp
    next
      case False
      with i(3) have lt: "i < f" by simp
      have "i + length sub \<le> s"
      proof (rule ccontr)
        assume "\<not> i + length sub \<le> s"
        then have "s < i + length sub" by simp
        from ref_key3[OF inv sp i(1) this] have "s \<le> i" .
        from ref_key1[OF inv sp ne this i(1)] first \<open>s \<le> i\<close> lt show False by blast
      qed
      with i show ?thesis unfolding spec_upto_def by blast
    qed
  next
    assume "(f + length sub \<le> p \<and> p < f + length sub + n) \<or> spec_upto msg sub n s p"
    then show "spec_upto msg sub n (f + length sub) p"
    proof
      assume "f + length sub \<le> p \<and> p < f + length sub + n"
      with occ0 room show ?thesis unfolding spec_upto_def by blast
    next
      assume "spec_upto msg sub n s p"
      then obtain i where i: "occurs_at msg sub i" "i + length sub + n \<le> length msg"
        "i + length sub \<le> s" "i + length sub \<le> p" "p < i + length sub + n"
        by (auto simp: spec_upto_def)
      from i(3) sf have "i + length sub \<le> f + length sub" by linarith
      with i show ?thesis unfolding spec_upto_def by blast
    qed
  qed
  show ?thesis
    unfolding ref_inv_def
  proof (intro conjI allI impI)
    show "length (mask_at m (f + length sub) n) = length msg"
      using fits len by (simp add: length_mask_at)
  next
    fix p assume p: "p < length msg"
    have "mask_at m (f + length sub) n ! p =
        (if f + length sub \<le> p \<and> p < f + length sub + n then CHR ''x'' else m ! p)"
      using nth_mask_at[of "f + length sub" n m p] fits p len by simp
    also have "m ! p = (if spec_upto msg sub n s p then CHR ''x'' else msg ! p)"
      using inv p by (simp add: ref_inv_def)
    finally show "mask_at m (f + length sub) n ! p =
        (if spec_upto msg sub n (f + length sub) p then CHR ''x'' else msg ! p)"
      using upto[of p] by auto
  next
    show "f + length sub = 0 \<or>
      (\<exists>i0. occurs_at msg sub i0 \<and> i0 + length sub + n \<le> length msg \<and> f + length sub = i0 + length sub)"
      using occ0 room by blast
  qed
qed

lemma ref_inv_fin:
  assumes ne: "sub \<noteq> []" and sp: "sep msg sub n"
    and inv: "ref_inv msg sub n m s"
    and noroom: "\<forall>f. s \<le> f \<and> occurs_at m sub f \<longrightarrow> length m < f + length sub + n"
  shows "m = elide_spec msg sub n"
proof (rule nth_equalityI)
  show "length m = length (elide_spec msg sub n)"
    using inv by (simp add: ref_inv_def elide_spec_def)
next
  fix p assume "p < length m"
  then have p: "p < length msg" using inv by (simp add: ref_inv_def)
  have len: "length m = length msg" using inv by (simp add: ref_inv_def)
  have "spec_upto msg sub n s p \<longleftrightarrow> masked_by msg sub n p"
  proof
    assume "spec_upto msg sub n s p"
    then show "masked_by msg sub n p" unfolding masked_by_iff spec_upto_def by blast
  next
    assume "masked_by msg sub n p"
    then obtain i where i: "occurs_at msg sub i" "i + length sub + n \<le> length msg"
        "i + length sub \<le> p" "p < i + length sub + n"
      unfolding masked_by_iff by blast
    have "i + length sub \<le> s"
    proof (rule ccontr)
      assume "\<not> i + length sub \<le> s"
      then have "s < i + length sub" by simp
      from ref_key3[OF inv sp i(1) this] have si: "s \<le> i" .
      from ref_key1[OF inv sp ne si i(1)] noroom si have "length m < i + length sub + n" by blast
      with i(2) len show False by simp
    qed
    with i show "spec_upto msg sub n s p" unfolding spec_upto_def by blast
  qed
  then show "m ! p = elide_spec msg sub n ! p"
    using inv p by (simp add: ref_inv_def elide_spec_def)
qed

lemma elidePattern_refines:
  assumes ne: "sub \<noteq> []" and h: "hd sub \<noteq> CHR ''x''" and c0: "0 \<le> chars"
    and sp: "separated msg sub (nat chars)"
  shows "elidePattern msg sub chars = Some (elide_spec msg sub (nat chars))"
proof -
  have sp': "sep msg sub (nat chars)" using separated_sep[OF ne sp] .
  have "\<exists>r. elideLoop msg sub chars (int 0) = Some r \<and> r = elide_spec msg sub (nat chars)"
  proof (rule elideLoop_rule[where I = "ref_inv msg sub (nat chars)"])
    show "sub \<noteq> []" by fact
    show "ref_inv msg sub (nat chars) msg 0" using ne by (simp add: ref_inv_def spec_upto_def)
    show "0 \<le> length msg" by simp
  next
    fix m s f
    assume a: "ref_inv msg sub (nat chars) m s" "s \<le> f" "occurs_at m sub f"
      "\<forall>j. s \<le> j \<and> j < f \<longrightarrow> \<not> occurs_at m sub j"
      "int f + int (length sub) + chars \<le> int (length m)"
    have "f + length sub + nat chars \<le> length m" using mask_at_fits[OF a(3) a(5)] .
    from ref_inv_step[OF ne h sp' a(1) a(2) a(3) a(4) this]
    show "ref_inv msg sub (nat chars) (mask_at m (f + length sub) (nat chars)) (f + length sub)" .
  next
    fix m s
    assume a: "ref_inv msg sub (nat chars) m s"
      "\<forall>f. s \<le> f \<and> occurs_at m sub f \<longrightarrow> int (length m) < int f + int (length sub) + chars"
    have "\<forall>f. s \<le> f \<and> occurs_at m sub f \<longrightarrow> length m < f + length sub + nat chars"
    proof (intro allI impI)
      fix f assume "s \<le> f \<and> occurs_at m sub f"
      with a(2) have "int (length m) < int f + int (length sub) + chars" by blast
      with c0 show "length m < f + length sub + nat chars" by linarith
    qed
    from ref_inv_fin[OF ne sp' a(1) this] show "m = elide_spec msg sub (nat chars)" .
  qed
  then show ?thesis by (simp add: elidePattern_def)
qed

lemma match_from_empty: "match_from [] s = Some 0"
  by (cases s) simp_all

lemma indexOf_empty:
  "0 \<le> st \<Longrightarrow> st \<le> int (length s) \<Longrightarrow> indexOf s [] st = st"
  by (simp add: indexOf_def match_from_empty)

lemma length_fill_x:
  "0 \<le> st \<Longrightarrow> st + chars \<le> int (length msg) \<Longrightarrow> length (fill_x msg st chars) = length msg"
proof -
  assume a: "0 \<le> st" "st + chars \<le> int (length msg)"
  then have "fill_x msg (int (nat st)) chars = mask_at msg (nat st) (nat chars)"
    by (intro fill_x_mask_at) simp
  moreover have "nat st + nat chars \<le> length msg \<or> chars \<le> 0" using a by linarith
  ultimately show ?thesis using a
    by (auto simp: length_mask_at mask_at_def)
qed

lemma elideLoop_empty_pattern:
  assumes "elideLoop msg sub chars st = Some r"
  shows "\<not> (sub = [] \<and> 0 \<le> st \<and> st \<le> int (length msg) \<and> st + chars \<le> int (length msg))"
proof (rule elideLoop.raw_induct[where P = "\<lambda>msg sub chars st r.
    \<not> (sub = [] \<and> 0 \<le> st \<and> st \<le> int (length msg) \<and> st + chars \<le> int (length msg))",
    OF _ assms])
  fix loop :: "string \<Rightarrow> string \<Rightarrow> int \<Rightarrow> int \<Rightarrow> string option"
    and msg sub :: string and chars st :: int and r :: string
  assume IH: "\<And>m p c s y. loop m p c s = Some y \<Longrightarrow>
      \<not> (p = [] \<and> 0 \<le> s \<and> s \<le> int (length m) \<and> s + c \<le> int (length m))"
    and body: "(let start1 = indexOf msg sub st
      in if start1 < 0 \<or> int (length msg) < start1 + int (length sub) + chars then Some msg
         else let start2 = start1 + int (length sub)
              in loop (fill_x msg start2 chars) sub chars start2) = Some r"
  show "\<not> (sub = [] \<and> 0 \<le> st \<and> st \<le> int (length msg) \<and> st + chars \<le> int (length msg))"
  proof
    assume a: "sub = [] \<and> 0 \<le> st \<and> st \<le> int (length msg) \<and> st + chars \<le> int (length msg)"
    then have ix: "indexOf msg sub st = st" by (simp add: indexOf_empty)
    with a body have rec: "loop (fill_x msg st chars) sub chars st = Some r"
      by (simp add: Let_def)
    have "length (fill_x msg st chars) = length msg" using a by (simp add: length_fill_x)
    with IH[OF rec] a show False by simp
  qed
qed

lemma elidePattern_empty_pattern:
  "chars \<le> int (length msg) \<Longrightarrow> elidePattern msg [] chars = None"
  using elideLoop_empty_pattern[of msg "[]" chars 0]
  by (cases "elidePattern msg [] chars") (auto simp: elidePattern_def)

subsection \<open>The two passes of processLog\<close>

lemma length_elide_spec: "length (elide_spec msg pat n) = length msg"
  by (simp add: elide_spec_def)

lemma nth_elide_spec:
  "p < length msg \<Longrightarrow>
   elide_spec msg pat n ! p = (if masked_by msg pat n p then CHR ''x'' else msg ! p)"
  by (simp add: elide_spec_def)

lemma length_redact_spec: "length (redact_spec msg) = length msg"
  by (simp add: redact_spec_def)

lemma nth_redact_spec:
  "p < length msg \<Longrightarrow>
   redact_spec msg ! p =
     (if (\<exists>pat \<in> set token_patterns. masked_by msg pat 20 p) then CHR ''x'' else msg ! p)"
  by (simp add: redact_spec_def)

lemma token_pattern_cases:
  "pat \<in> set token_patterns \<longleftrightarrow> pat = ''X-Plex-Token='' \<or> pat = ''X-Plex-Token%3D''"
  by (auto simp: token_patterns_def)

lemma token_pattern_length:
  "pat \<in> set token_patterns \<Longrightarrow> 13 \<le> length pat \<and> length pat \<le> 15"
  by (auto simp: token_pattern_cases)

lemma token_pattern_head:
  "pat \<in> set token_patterns \<Longrightarrow> pat ! 0 = CHR ''X''"
  by (auto simp: token_pattern_cases)

lemma token_pattern_one_X:
  assumes "pat \<in> set token_patterns" "0 < k" "k < length pat"
  shows "pat ! k \<noteq> CHR ''X''"
proof -
  have a: "list_all (\<lambda>k. 0 < k \<longrightarrow> ''X-Plex-Token='' ! k \<noteq> CHR ''X'') [0..<13]" by code_simp
  have b: "list_all (\<lambda>k. 0 < k \<longrightarrow> ''X-Plex-Token%3D'' ! k \<noteq> CHR ''X'') [0..<15]" by code_simp
  from assms(1) consider "pat = ''X-Plex-Token=''" | "pat = ''X-Plex-Token%3D''"
    by (auto simp: token_pattern_cases)
  then show ?thesis
  proof cases
    case 1
    with assms(3) have "k \<in> set [0..<13]" by simp
    with a assms(2) 1 show ?thesis unfolding list_all_iff by blast
  next
    case 2
    with assms(3) have "k \<in> set [0..<15]" by simp
    with b assms(2) 2 show ?thesis unfolding list_all_iff by blast
  qed
qed

lemma token_pattern_one_x:
  assumes "pat \<in> set token_patterns" "k < length pat" "pat ! k = CHR ''x''"
  shows "k = 5"
proof -
  have a: "list_all (\<lambda>k. ''X-Plex-Token='' ! k = CHR ''x'' \<longrightarrow> k = 5) [0..<13]" by code_simp
  have b: "list_all (\<lambda>k. ''X-Plex-Token%3D'' ! k = CHR ''x'' \<longrightarrow> k = 5) [0..<15]" by code_simp
  from assms(1) consider "pat = ''X-Plex-Token=''" | "pat = ''X-Plex-Token%3D''"
    by (auto simp: token_pattern_cases)
  then show ?thesis
  proof cases
    case 1
    with assms(2) have "k \<in> set [0..<13]" by simp
    with a assms(3) 1 show ?thesis unfolding list_all_iff by blast
  next
    case 2
    with assms(2) have "k \<in> set [0..<15]" by simp
    with b assms(3) 2 show ?thesis unfolding list_all_iff by blast
  qed
qed

lemma token_pattern_at_12:
  assumes "pat \<in> set token_patterns" "pat' \<in> set token_patterns" "pat ! 12 = pat' ! 12"
  shows "pat' = pat"
  using assms by (auto simp: token_pattern_cases)

lemma tokens_apart_D:
  assumes ta: "tokens_apart msg" and pats: "pat \<in> set token_patterns" "pat' \<in> set token_patterns"
    and occ: "occurs_at msg pat i" "occurs_at msg pat' j" and lt: "i < j"
    and room: "i + length pat + 20 \<le> length msg"
  shows "i + length pat + 20 \<le> j"
proof -
  from token_pattern_length[OF pats(2)] occ(2) have "j < length msg"
    by (simp add: occurs_at_def)
  with lt have "i \<in> set [0..<length msg]" "j \<in> set [0..<length msg]" by simp_all
  with ta pats occ lt room show ?thesis unfolding tokens_apart_def by blast
qed

lemma occ_close:
  assumes pats: "pat \<in> set token_patterns" "pat' \<in> set token_patterns"
    and occ: "occurs_at msg pat i" "occurs_at msg pat' j"
    and le: "i \<le> j" and lt: "j < i + length pat"
  shows "j = i \<and> pat' = pat"
proof -
  have l: "13 \<le> length pat" "13 \<le> length pat'"
    using token_pattern_length pats by blast+
  from occ(2) l(2) have "msg ! (j + 0) = pat' ! 0" unfolding occurs_at_nth_iff by force
  then have X: "msg ! j = CHR ''X''" using token_pattern_head[OF pats(2)] by simp
  have ji: "j = i"
  proof (rule ccontr)
    assume "j \<noteq> i"
    with le lt have k: "0 < j - i" "j - i < length pat" by linarith+
    from occ(1) k(2) have "msg ! (i + (j - i)) = pat ! (j - i)" unfolding occurs_at_nth_iff by blast
    moreover have "i + (j - i) = j" using le by simp
    ultimately have "pat ! (j - i) = CHR ''X''" using X by simp
    with token_pattern_one_X[OF pats(1) k] show False by simp
  qed
  from occ(1) l(1) have "msg ! (i + 12) = pat ! 12" unfolding occurs_at_nth_iff by force
  moreover from occ(2) l(2) ji have "msg ! (i + 12) = pat' ! 12" unfolding occurs_at_nth_iff by force
  ultimately have "pat ! 12 = pat' ! 12" by simp
  from token_pattern_at_12[OF pats this] ji show ?thesis by simp
qed

lemma no_mask_on_occurrence:
  assumes ta: "tokens_apart msg" and pats: "pat \<in> set token_patterns" "pat' \<in> set token_patterns"
    and occ: "occurs_at msg pat i" and k: "k < length pat"
  shows "\<not> masked_by msg pat' 20 (i + k)"
proof
  assume "masked_by msg pat' 20 (i + k)"
  then obtain i' where i': "occurs_at msg pat' i'" "i' + length pat' + 20 \<le> length msg"
      "i' + length pat' \<le> i + k" "i + k < i' + length pat' + 20"
    unfolding masked_by_iff by blast
  have l: "13 \<le> length pat'" using token_pattern_length pats(2) by blast
  show False
  proof (cases "i' < i")
    case True
    from tokens_apart_D[OF ta pats(2) pats(1) i'(1) occ True i'(2)] i'(4) show False by linarith
  next
    case False
    then have "i \<le> i'" by simp
    moreover have "i' < i + length pat" using i'(3) k l by linarith
    ultimately have "i' = i \<and> pat' = pat" using occ_close[OF pats occ i'(1)] by blast
    with i'(3) k show False by simp
  qed
qed

lemma short_tail_unmasked:
  assumes ta: "tokens_apart msg" and pats: "pat \<in> set token_patterns" "pat' \<in> set token_patterns"
    and occ: "occurs_at msg pat i" and short: "length msg < i + length pat + 20"
    and p: "i + length pat \<le> p"
  shows "\<not> masked_by msg pat' 20 p"
proof
  assume "masked_by msg pat' 20 p"
  then obtain i' where i': "occurs_at msg pat' i'" "i' + length pat' + 20 \<le> length msg"
      "i' + length pat' \<le> p" "p < i' + length pat' + 20"
    unfolding masked_by_iff by blast
  have l: "13 \<le> length pat'" using token_pattern_length pats(2) by blast
  show False
  proof (cases "i' < i")
    case True
    from tokens_apart_D[OF ta pats(2) pats(1) i'(1) occ True i'(2)] i'(4) p show False by linarith
  next
    case False
    then have "i \<le> i'" by simp
    moreover have "i' < i + length pat" using i'(2) short l by linarith
    ultimately have "i' = i \<and> pat' = pat" using occ_close[OF pats occ i'(1)] by blast
    with i'(2) short show False by simp
  qed
qed

lemma masked_occurrence_is_clear:
  assumes pats: "pat \<in> set token_patterns"
    and occ: "occurs_at (elide_spec msg pat' 20) pat j" and k: "k < length pat"
  shows "\<not> masked_by msg pat' 20 (j + k)"
proof
  assume m: "masked_by msg pat' 20 (j + k)"
  let ?m1 = "elide_spec msg pat' 20"
  from m obtain i' where i': "occurs_at msg pat' i'" "i' + length pat' + 20 \<le> length msg"
      "i' + length pat' \<le> j + k" "j + k < i' + length pat' + 20"
    unfolding masked_by_iff by blast
  have region: "masked_by msg pat' 20 q" if "i' + length pat' \<le> q" "q < i' + length pat' + 20" for q
    unfolding masked_by_iff using i'(1,2) that by blast
  have l: "13 \<le> length pat" using token_pattern_length pats by blast
  have at: "?m1 ! (j + q) = pat ! q" if "q < length pat" for q
    using occ that unfolding occurs_at_nth_iff by blast
  have jl: "j + length pat \<le> length msg"
    using occ by (simp add: occurs_at_def length_elide_spec)
  have x: "?m1 ! q = CHR ''x''" if "i' + length pat' \<le> q" "q < i' + length pat' + 20" for q
  proof -
    from that i'(2) have "q < length msg" by linarith
    with region[OF that] show ?thesis by (simp add: nth_elide_spec)
  qed
  from x[OF i'(3) i'(4)] at[OF k] have "pat ! k = CHR ''x''" by simp
  from token_pattern_one_x[OF pats k this] have k5: "k = 5" .
  show False
  proof (cases "i' + length pat' \<le> j + 4")
    case True
    have "j + 4 < i' + length pat' + 20" using i'(4) k5 by linarith
    from x[OF True this] at[of 4] l have "pat ! 4 = CHR ''x''" by simp
    with token_pattern_one_x[OF pats _ this] l show False by simp
  next
    case False
    with i'(3) k5 have "i' + length pat' \<le> j + 6" "j + 6 < i' + length pat' + 20" by linarith+
    from x[OF this] at[of 6] l have "pat ! 6 = CHR ''x''" by simp
    with token_pattern_one_x[OF pats _ this] l show False by simp
  qed
qed

lemma occurs_at_elide_spec:
  assumes ta: "tokens_apart msg" and pats: "pat \<in> set token_patterns" "pat' \<in> set token_patterns"
  shows "occurs_at (elide_spec msg pat' 20) pat j \<longleftrightarrow> occurs_at msg pat j"
proof
  assume occ: "occurs_at (elide_spec msg pat' 20) pat j"
  then have jl: "j + length pat \<le> length msg" by (simp add: occurs_at_def length_elide_spec)
  have "msg ! (j + q) = pat ! q" if q: "q < length pat" for q
  proof -
    from q jl have "j + q < length msg" by linarith
    moreover from occ q have "elide_spec msg pat' 20 ! (j + q) = pat ! q"
      unfolding occurs_at_nth_iff by blast
    ultimately show ?thesis
      using masked_occurrence_is_clear[OF pats(1) occ q] by (simp add: nth_elide_spec)
  qed
  with jl show "occurs_at msg pat j" unfolding occurs_at_nth_iff by blast
next
  assume occ: "occurs_at msg pat j"
  then have jl: "j + length pat \<le> length msg" by (simp add: occurs_at_def)
  have "elide_spec msg pat' 20 ! (j + q) = pat ! q" if q: "q < length pat" for q
  proof -
    from q jl have "j + q < length msg" by linarith
    moreover from occ q have "msg ! (j + q) = pat ! q" unfolding occurs_at_nth_iff by blast
    ultimately show ?thesis
      using no_mask_on_occurrence[OF ta pats occ q] by (simp add: nth_elide_spec)
  qed
  with jl show "occurs_at (elide_spec msg pat' 20) pat j"
    unfolding occurs_at_nth_iff by (simp add: length_elide_spec)
qed

lemma masked_by_elide_spec:
  assumes ta: "tokens_apart msg" and pats: "pat \<in> set token_patterns" "pat' \<in> set token_patterns"
  shows "masked_by (elide_spec msg pat' 20) pat 20 p \<longleftrightarrow> masked_by msg pat 20 p"
  unfolding masked_by_iff by (simp add: occurs_at_elide_spec[OF ta pats] length_elide_spec)

lemma tokens_apart_separated:
  assumes ta: "tokens_apart msg" and pat: "pat \<in> set token_patterns"
  shows "separated msg pat 20"
  unfolding separated_def
proof (intro ballI impI)
  fix i j
  assume "occurs_at msg pat i \<and> occurs_at msg pat j \<and> i < j \<and> i + length pat + 20 \<le> length msg"
  then show "i + length pat + 20 \<le> j" using tokens_apart_D[OF ta pat pat] by blast
qed

lemma tokens_apart_separated_after:
  assumes ta: "tokens_apart msg" and pats: "pat \<in> set token_patterns" "pat' \<in> set token_patterns"
  shows "separated (elide_spec msg pat' 20) pat 20"
  unfolding separated_def
proof (intro ballI impI)
  fix i j
  assume "occurs_at (elide_spec msg pat' 20) pat i \<and> occurs_at (elide_spec msg pat' 20) pat j
     \<and> i < j \<and> i + length pat + 20 \<le> length (elide_spec msg pat' 20)"
  then have "occurs_at msg pat i" "occurs_at msg pat j" "i < j" "i + length pat + 20 \<le> length msg"
    by (simp_all add: occurs_at_elide_spec[OF ta pats] length_elide_spec)
  then show "i + length pat + 20 \<le> j" using tokens_apart_D[OF ta pats(1) pats(1)] by blast
qed

lemma processLog_refines:
  assumes ta: "tokens_apart msg"
  shows "processLog msg = Some (redact_spec msg)"
proof -
  let ?P1 = "''X-Plex-Token=''" and ?P2 = "''X-Plex-Token%3D''"
  have pats: "?P1 \<in> set token_patterns" "?P2 \<in> set token_patterns"
    by (simp_all add: token_patterns_def)
  let ?m1 = "elide_spec msg ?P1 20"
  have 1: "elidePattern msg ?P1 20 = Some (elide_spec msg ?P1 (nat 20))"
    using tokens_apart_separated[OF ta pats(1)] by (intro elidePattern_refines) simp_all
  have 2: "elidePattern ?m1 ?P2 20 = Some (elide_spec ?m1 ?P2 (nat 20))"
    using tokens_apart_separated_after[OF ta pats(2) pats(1)]
    by (intro elidePattern_refines) simp_all
  have "elide_spec ?m1 ?P2 20 = redact_spec msg"
  proof (rule nth_equalityI)
    show "length (elide_spec ?m1 ?P2 20) = length (redact_spec msg)"
      by (simp add: length_elide_spec length_redact_spec)
  next
    fix p assume "p < length (elide_spec ?m1 ?P2 20)"
    then have p: "p < length msg" by (simp add: length_elide_spec)
    have "(\<exists>pat \<in> set token_patterns. masked_by msg pat 20 p)
        \<longleftrightarrow> masked_by msg ?P1 20 p \<or> masked_by msg ?P2 20 p"
      by (simp add: token_patterns_def)
    with p show "elide_spec ?m1 ?P2 20 ! p = redact_spec msg ! p"
      by (simp add: nth_elide_spec nth_redact_spec length_elide_spec
          masked_by_elide_spec[OF ta pats(2) pats(1)])
  qed
  with 1 2 show ?thesis by (simp add: processLog_def)
qed

lemma redact_spec_occurrence:
  assumes ta: "tokens_apart msg" and pat: "pat \<in> set token_patterns" and occ: "occurs_at msg pat i"
  shows "occurs_at (redact_spec msg) pat i"
    and "i + length pat + 20 \<le> length msg \<Longrightarrow> q < 20 \<Longrightarrow>
         redact_spec msg ! (i + length pat + q) = CHR ''x''"
    and "length msg < i + length pat + 20 \<Longrightarrow> i + length pat \<le> p \<Longrightarrow> p < length msg \<Longrightarrow>
         redact_spec msg ! p = msg ! p"
proof -
  from occ have il: "i + length pat \<le> length msg" by (simp add: occurs_at_def)
  have "redact_spec msg ! (i + k) = pat ! k" if k: "k < length pat" for k
  proof -
    from k il have "i + k < length msg" by linarith
    moreover from occ k have "msg ! (i + k) = pat ! k" unfolding occurs_at_nth_iff by blast
    ultimately show ?thesis
      using no_mask_on_occurrence[OF ta pat _ occ k] by (simp add: nth_redact_spec)
  qed
  with il show "occurs_at (redact_spec msg) pat i"
    unfolding occurs_at_nth_iff by (simp add: length_redact_spec)
next
  assume room: "i + length pat + 20 \<le> length msg" and q: "q < 20"
  then have "masked_by msg pat 20 (i + length pat + q)"
    unfolding masked_by_iff using occ by (intro exI[of _ i]) simp
  moreover have "i + length pat + q < length msg" using room q by linarith
  ultimately show "redact_spec msg ! (i + length pat + q) = CHR ''x''"
    using pat by (auto simp: nth_redact_spec)
next
  assume "length msg < i + length pat + 20" "i + length pat \<le> p" "p < length msg"
  then show "redact_spec msg ! p = msg ! p"
    using short_tail_unmasked[OF ta pat _ occ] by (simp add: nth_redact_spec)
qed

subsection \<open>What processLog leaves in a message\<close>

text \<open>
  Claim C1, as amended. For every message (of a length that leaves the sums of the code
  inside \<^verbatim>\<open>int\<close>), \<^verbatim>\<open>processLog\<close> returns; the message it returns has the length of the
  original and differs from it only in characters that are now \<open>x\<close>; and in it every
  occurrence of \<^verbatim>\<open>X-Plex-Token=\<close> or of \<^verbatim>\<open>X-Plex-Token%3D\<close> that has at least 20 characters
  behind it is followed by twenty \<open>x\<close>. When the occurrences of the two patterns in the
  message do not interfere (\<open>tokens_apart\<close>), the message returned is the one the words of
  the specification give (\<open>redact_spec\<close>): exactly the 20 characters behind each occurrence
  with at least 20 characters behind it are replaced by \<open>x\<close> and every other character
  stays. So every occurrence of a pattern in the original stands at its place in the
  result (the pattern is retained), the 20 characters behind it are masked, the characters
  of a token behind the twentieth are kept, and behind an occurrence with fewer than 20
  characters behind it every character up to the end of the message stays as it was.
\<close>

theorem processLog_masks_found_tokens:
  assumes "int (length msg) + 20 \<le> INT_MAX"
  shows "\<exists>r. processLog msg = Some r \<and> length r = length msg
     \<and> (\<forall>p < length msg. r ! p = msg ! p \<or> r ! p = CHR ''x'')
     \<and> (\<forall>i. occurs_at r ''X-Plex-Token='' i \<and> i + 13 + 20 \<le> length r
            \<longrightarrow> (\<forall>q < 20. r ! (i + 13 + q) = CHR ''x''))
     \<and> (\<forall>i. occurs_at r ''X-Plex-Token%3D'' i \<and> i + 15 + 20 \<le> length r
            \<longrightarrow> (\<forall>q < 20. r ! (i + 15 + q) = CHR ''x''))
     \<and> (tokens_apart msg \<longrightarrow>
          r = redact_spec msg
          \<and> (\<forall>pat \<in> set token_patterns. \<forall>i. occurs_at msg pat i \<longrightarrow>
                occurs_at r pat i
                \<and> (i + length pat + 20 \<le> length msg
                     \<longrightarrow> (\<forall>q < 20. r ! (i + length pat + q) = CHR ''x''))
                \<and> (length msg < i + length pat + 20
                     \<longrightarrow> (\<forall>p. i + length pat \<le> p \<and> p < length msg \<longrightarrow> r ! p = msg ! p))))"
proof -
  from processLog_redacts[of msg] obtain r where r: "processLog msg = Some r"
    "only_runs msg r 20" "redacted r ''X-Plex-Token='' 20" "redacted r ''X-Plex-Token%3D'' 20"
    by blast
  have len: "length r = length msg" using r(2) by (simp add: only_runs_def)
  have same: "\<forall>p < length msg. r ! p = msg ! p \<or> r ! p = CHR ''x''"
  proof (intro allI impI)
    fix p assume p: "p < length msg"
    show "r ! p = msg ! p \<or> r ! p = CHR ''x''"
    proof (cases "r ! p = msg ! p")
      case False
      with r(2) p obtain a where "a \<le> p" "p < a + 20" "x_run r a 20"
        by (auto simp: only_runs_def)
      then show ?thesis by (simp add: x_run_def)
    qed simp
  qed
  have m1: "\<forall>i. occurs_at r ''X-Plex-Token='' i \<and> i + 13 + 20 \<le> length r
            \<longrightarrow> (\<forall>q < 20. r ! (i + 13 + q) = CHR ''x'')"
  proof (intro allI impI)
    fix i q :: nat
    assume a: "occurs_at r ''X-Plex-Token='' i \<and> i + 13 + 20 \<le> length r" and q: "q < 20"
    have "length ''X-Plex-Token='' = 13" by simp
    with r(3) a have "x_run r (i + 13) 20" unfolding redacted_def by metis
    with q show "r ! (i + 13 + q) = CHR ''x''" by (simp add: x_run_def)
  qed
  have m2: "\<forall>i. occurs_at r ''X-Plex-Token%3D'' i \<and> i + 15 + 20 \<le> length r
            \<longrightarrow> (\<forall>q < 20. r ! (i + 15 + q) = CHR ''x'')"
  proof (intro allI impI)
    fix i q :: nat
    assume a: "occurs_at r ''X-Plex-Token%3D'' i \<and> i + 15 + 20 \<le> length r" and q: "q < 20"
    have "length ''X-Plex-Token%3D'' = 15" by simp
    with r(4) a have "x_run r (i + 15) 20" unfolding redacted_def by metis
    with q show "r ! (i + 15 + q) = CHR ''x''" by (simp add: x_run_def)
  qed
  have apart: "tokens_apart msg \<longrightarrow>
          r = redact_spec msg
          \<and> (\<forall>pat \<in> set token_patterns. \<forall>i. occurs_at msg pat i \<longrightarrow>
                occurs_at r pat i
                \<and> (i + length pat + 20 \<le> length msg
                     \<longrightarrow> (\<forall>q < 20. r ! (i + length pat + q) = CHR ''x''))
                \<and> (length msg < i + length pat + 20
                     \<longrightarrow> (\<forall>p. i + length pat \<le> p \<and> p < length msg \<longrightarrow> r ! p = msg ! p)))"
  proof
    assume ta: "tokens_apart msg"
    from processLog_refines[OF ta] r(1) have eq: "r = redact_spec msg" by simp
    show "r = redact_spec msg
          \<and> (\<forall>pat \<in> set token_patterns. \<forall>i. occurs_at msg pat i \<longrightarrow>
                occurs_at r pat i
                \<and> (i + length pat + 20 \<le> length msg
                     \<longrightarrow> (\<forall>q < 20. r ! (i + length pat + q) = CHR ''x''))
                \<and> (length msg < i + length pat + 20
                     \<longrightarrow> (\<forall>p. i + length pat \<le> p \<and> p < length msg \<longrightarrow> r ! p = msg ! p)))"
      unfolding eq using redact_spec_occurrence[OF ta] by blast
  qed
  from r(1) len same m1 m2 apart show ?thesis by blast
qed

theorem processLog_masks_found_tokens_witness:
  "int (length ''a?X-Plex-Token=abcdefghijklmnopqrstuv&r=X-Plex-Token%3Dshort'') + 20 \<le> INT_MAX
   \<and> tokens_apart ''a?X-Plex-Token=abcdefghijklmnopqrstuv&r=X-Plex-Token%3Dshort''
   \<and> processLog ''a?X-Plex-Token=abcdefghijklmnopqrstuv&r=X-Plex-Token%3Dshort''
       = Some ''a?X-Plex-Token=xxxxxxxxxxxxxxxxxxxxuv&r=X-Plex-Token%3Dshort''
   \<and> ''X-Plex-Token='' \<in> set token_patterns
   \<and> occurs_at ''a?X-Plex-Token=abcdefghijklmnopqrstuv&r=X-Plex-Token%3Dshort'' ''X-Plex-Token='' 2
   \<and> 2 + length ''X-Plex-Token='' + 20
       \<le> length ''a?X-Plex-Token=abcdefghijklmnopqrstuv&r=X-Plex-Token%3Dshort''
   \<and> occurs_at ''a?X-Plex-Token=xxxxxxxxxxxxxxxxxxxxuv&r=X-Plex-Token%3Dshort'' ''X-Plex-Token='' 2
   \<and> ''a?X-Plex-Token=xxxxxxxxxxxxxxxxxxxxuv&r=X-Plex-Token%3Dshort''
        ! (2 + length ''X-Plex-Token='' + 19) = CHR ''x''
   \<and> ''X-Plex-Token%3D'' \<in> set token_patterns
   \<and> occurs_at ''a?X-Plex-Token=abcdefghijklmnopqrstuv&r=X-Plex-Token%3Dshort'' ''X-Plex-Token%3D'' 40
   \<and> length ''a?X-Plex-Token=abcdefghijklmnopqrstuv&r=X-Plex-Token%3Dshort''
       < 40 + length ''X-Plex-Token%3D'' + 20
   \<and> ''a?X-Plex-Token=xxxxxxxxxxxxxxxxxxxxuv&r=X-Plex-Token%3Dshort'' ! 59
       = ''a?X-Plex-Token=abcdefghijklmnopqrstuv&r=X-Plex-Token%3Dshort'' ! 59"
proof -
  let ?M = "''a?X-Plex-Token=abcdefghijklmnopqrstuv&r=X-Plex-Token%3Dshort''"
  let ?R = "''a?X-Plex-Token=xxxxxxxxxxxxxxxxxxxxuv&r=X-Plex-Token%3Dshort''"
  let ?P1 = "''X-Plex-Token=''" and ?P2 = "''X-Plex-Token%3D''"
  have h: "int (length ?M) + 20 \<le> INT_MAX" by (simp add: INT_MAX_def)
  have ta: "tokens_apart ?M" by code_simp
  have v: "redact_spec ?M = ?R" by code_simp
  have p1: "?P1 \<in> set token_patterns" and p2: "?P2 \<in> set token_patterns"
    by (simp_all add: token_patterns_def)
  have o1: "occurs_at ?M ?P1 2" and o2: "occurs_at ?M ?P2 40"
    by (simp_all add: occurs_at_def)
  have room: "2 + length ?P1 + 20 \<le> length ?M" by simp
  have short: "length ?M < 40 + length ?P2 + 20" by simp
  from processLog_masks_found_tokens[OF h] obtain r where
    r: "processLog ?M = Some r"
    and imp: "tokens_apart ?M \<longrightarrow>
          r = redact_spec ?M
          \<and> (\<forall>pat \<in> set token_patterns. \<forall>i. occurs_at ?M pat i \<longrightarrow>
                occurs_at r pat i
                \<and> (i + length pat + 20 \<le> length ?M
                     \<longrightarrow> (\<forall>q < 20. r ! (i + length pat + q) = CHR ''x''))
                \<and> (length ?M < i + length pat + 20
                     \<longrightarrow> (\<forall>p. i + length pat \<le> p \<and> p < length ?M \<longrightarrow> r ! p = ?M ! p)))"
    by (elim exE conjE) (rule that)
  note both = mp[OF imp ta]
  note eq = conjunct1[OF both] and post = conjunct2[OF both]
  from eq v have rR: "r = ?R" by (rule trans)
  note b1 = mp[OF spec[OF bspec[OF post p1], of "2::nat"] o1]
  note c1 = conjunct1[OF b1]
  note c2 = mp[OF conjunct1[OF conjunct2[OF b1]] room]
  from c2 have "(19::nat) < 20 \<longrightarrow> r ! (2 + length ?P1 + 19) = CHR ''x''" by (rule spec)
  then have c2': "r ! (2 + length ?P1 + 19) = CHR ''x''" by simp
  note b2 = mp[OF spec[OF bspec[OF post p2], of "40::nat"] o2]
  note c3 = mp[OF conjunct2[OF conjunct2[OF b2]] short]
  note c3a = spec[OF c3, of "59::nat"]
  have "40 + length ?P2 \<le> 59 \<and> 59 < length ?M" by simp
  with c3a have c3': "r ! 59 = ?M ! 59" by (rule mp)
  from r have c0: "processLog ?M = Some ?R" unfolding rR .
  note c1' = c1[unfolded rR] and c2'' = c2'[unfolded rR] and c3'' = c3'[unfolded rR]
  show ?thesis
    by (intro conjI) (rule h ta c0 p1 o1 room c1' c2'' p2 o2 short c3'')+
qed

text \<open>
  The claim as it was written fails on a token at the end of the message that is shorter
  than 20 characters: the message is persisted as it came, token included.
\<close>

theorem processLog_short_token_counterexample:
  "processLog ''GET /?X-Plex-Token=abcdefghijklmnopqrs'' = Some ''GET /?X-Plex-Token=abcdefghijklmnopqrs''"
  by code_simp

text \<open>
  Where occurrences interfere, the pattern is not retained either. Below, the second
  occurrence of \<^verbatim>\<open>X-Plex-Token=\<close> lies in the 20 characters behind the first and is
  overwritten; and an occurrence of \<^verbatim>\<open>X-Plex-Token=\<close> right behind \<^verbatim>\<open>X-Plex-Token%3D\<close> is
  masked by the first pass and then overwritten by the second.
\<close>

lemma processLog_interfering_tokens:
  "\<not> tokens_apart ''X-Plex-Token=X-Plex-Token=short12''
   \<and> occurs_at ''X-Plex-Token=X-Plex-Token=short12'' ''X-Plex-Token='' 13
   \<and> processLog ''X-Plex-Token=X-Plex-Token=short12'' = Some ''X-Plex-Token=xxxxxxxxxxxxxxxxxxxx''"
  by code_simp

lemma processLog_interfering_patterns:
  "occurs_at ''X-Plex-Token%3DX-Plex-Token=abcdefghijklmnopqrstuvwxyz'' ''X-Plex-Token='' 15
   \<and> processLog ''X-Plex-Token%3DX-Plex-Token=abcdefghijklmnopqrstuvwxyz''
       = Some ''X-Plex-Token%3Dxxxxxxxxxxxxxxxxxxxxxxxxxxxxxxxxxuvwxyz''"
  by code_simp

subsection \<open>elidePattern against the words of the specification\<close>

text \<open>
  Claim C10, as amended. For a pattern that is not empty and does not begin with \<open>x\<close>,
  a count \<open>n \<ge> 0\<close> (with \<open>length msg + n\<close> inside \<^verbatim>\<open>int\<close>), and a message in which the
  occurrences of the pattern do not interfere (\<open>separated\<close>: behind an occurrence with at
  least \<open>n\<close> characters behind it, the next occurrence starts only after those \<open>n\<close>
  characters), \<^verbatim>\<open>elidePattern\<close> returns, and replaces by \<open>x\<close> exactly the \<open>n\<close> characters
  behind each occurrence that has at least \<open>n\<close> characters behind it; every other
  character stays, so an occurrence with fewer than \<open>n\<close> characters behind it is left as it
  is. \<^verbatim>\<open>processLog\<close> does so with \<open>n = 20\<close>, for \<^verbatim>\<open>X-Plex-Token=\<close> and then, on the
  result, for \<^verbatim>\<open>X-Plex-Token%3D\<close>.
\<close>

theorem elidePattern_masks_exactly:
  "(pattern \<noteq> [] \<and> hd pattern \<noteq> CHR ''x'' \<and> 0 \<le> n \<and> int (length msg) + n \<le> INT_MAX
      \<and> separated msg pattern (nat n)
     \<longrightarrow> elidePattern msg pattern n = Some (elide_spec msg pattern (nat n)))
   \<and> (int (length msg) + 20 \<le> INT_MAX \<and> separated msg ''X-Plex-Token='' 20
      \<and> separated (elide_spec msg ''X-Plex-Token='' 20) ''X-Plex-Token%3D'' 20
     \<longrightarrow> processLog msg =
           Some (elide_spec (elide_spec msg ''X-Plex-Token='' 20) ''X-Plex-Token%3D'' 20))"
proof (intro conjI impI)
  assume "pattern \<noteq> [] \<and> hd pattern \<noteq> CHR ''x'' \<and> 0 \<le> n \<and> int (length msg) + n \<le> INT_MAX
      \<and> separated msg pattern (nat n)"
  then show "elidePattern msg pattern n = Some (elide_spec msg pattern (nat n))"
    using elidePattern_refines[of pattern n msg] by blast
next
  assume a: "int (length msg) + 20 \<le> INT_MAX \<and> separated msg ''X-Plex-Token='' 20
      \<and> separated (elide_spec msg ''X-Plex-Token='' 20) ''X-Plex-Token%3D'' 20"
  have 1: "elidePattern msg ''X-Plex-Token='' 20 = Some (elide_spec msg ''X-Plex-Token='' (nat 20))"
    using a by (intro elidePattern_refines) simp_all
  have 2: "elidePattern (elide_spec msg ''X-Plex-Token='' 20) ''X-Plex-Token%3D'' 20
      = Some (elide_spec (elide_spec msg ''X-Plex-Token='' 20) ''X-Plex-Token%3D'' (nat 20))"
    using a by (intro elidePattern_refines) simp_all
  from 1 2 show "processLog msg =
           Some (elide_spec (elide_spec msg ''X-Plex-Token='' 20) ''X-Plex-Token%3D'' 20)"
    by (simp add: processLog_def)
qed

theorem elidePattern_masks_exactly_witness:
  "''X-Plex-Token='' \<noteq> [] \<and> hd ''X-Plex-Token='' \<noteq> CHR ''x'' \<and> (0::int) \<le> 20
   \<and> int (length ''a?X-Plex-Token=abcdefghijklmnopqrstuv&X-Plex-Token=short'') + 20 \<le> INT_MAX
   \<and> separated ''a?X-Plex-Token=abcdefghijklmnopqrstuv&X-Plex-Token=short'' ''X-Plex-Token='' (nat 20)
   \<and> elidePattern ''a?X-Plex-Token=abcdefghijklmnopqrstuv&X-Plex-Token=short'' ''X-Plex-Token='' 20
       = Some ''a?X-Plex-Token=xxxxxxxxxxxxxxxxxxxxuv&X-Plex-Token=short''"
proof -
  let ?M = "''a?X-Plex-Token=abcdefghijklmnopqrstuv&X-Plex-Token=short''"
  have h: "''X-Plex-Token='' \<noteq> [] \<and> hd ''X-Plex-Token='' \<noteq> CHR ''x'' \<and> (0::int) \<le> 20
      \<and> int (length ?M) + 20 \<le> INT_MAX"
    by (simp add: INT_MAX_def)
  have s: "separated ?M ''X-Plex-Token='' (nat 20)" by code_simp
  have v: "elide_spec ?M ''X-Plex-Token='' (nat 20)
      = ''a?X-Plex-Token=xxxxxxxxxxxxxxxxxxxxuv&X-Plex-Token=short''" by code_simp
  from elidePattern_masks_exactly[of "''X-Plex-Token=''" 20 ?M] h s
  have "elidePattern ?M ''X-Plex-Token='' 20 = Some (elide_spec ?M ''X-Plex-Token='' (nat 20))"
    by blast
  with v h s show ?thesis by simp
qed

text \<open>
  The claim as it was written fails where occurrences interfere: the second occurrence
  below has 26 characters behind it, it is overwritten with the twenty characters behind
  the first one, and of the characters behind it only seven are masked.
\<close>

theorem elidePattern_overlap_counterexample:
  "occurs_at ''X-Plex-Token=X-Plex-Token=abcdefghijklmnopqrstuvwxyz'' ''X-Plex-Token='' 13
   \<and> 13 + 13 + 20 \<le> length ''X-Plex-Token=X-Plex-Token=abcdefghijklmnopqrstuvwxyz''
   \<and> elidePattern ''X-Plex-Token=X-Plex-Token=abcdefghijklmnopqrstuvwxyz'' ''X-Plex-Token='' 20
       = Some ''X-Plex-Token=xxxxxxxxxxxxxxxxxxxxhijklmnopqrstuvwxyz''
   \<and> processLog ''X-Plex-Token=X-Plex-Token=abcdefghijklmnopqrstuvwxyz''
       = Some ''X-Plex-Token=xxxxxxxxxxxxxxxxxxxxhijklmnopqrstuvwxyz''"
  by code_simp

section \<open>Properties of main\<close>

subsection \<open>Running the statements of main\<close>

lemma seq_not_running: "status s \<noteq> Running \<Longrightarrow> seq ps s = s"
  by (cases ps) simp_all

lemma seq_append: "seq (ps @ qs) s = seq qs (seq ps s)"
proof (induction ps arbitrary: s)
  case Nil
  then show ?case by simp
next
  case (Cons p ps)
  then show ?case by (simp add: seq_not_running)
qed

lemma scan_flags_licenses:
  "''--licenses'' \<in> set as \<Longrightarrow>
   \<exists>outs h. scan_flags e as s =
     s\<lparr>trace := trace s @ map Stdout (outs @ [licenses_txt e @ newline]),
       startHidden := h, status := Returned 0\<rparr>"
proof (induction as arbitrary: s)
  case Nil
  then show ?case by simp
next
  case (Cons a as)
  show ?case
  proof (cases "a = ''--licenses''")
    case True
    then show ?thesis
      by (intro exI[of _ "[]"] exI[of _ "startHidden s"]) (simp add: return_with_def stdout_def)
  next
    case False
    with Cons.prems have mem: "''--licenses'' \<in> set as" by simp
    show ?thesis
    proof (cases "a = ''--hidden''")
      case True
      let ?s1 = "stdout (''Starting hidden'' @ newline) (s\<lparr>startHidden := True\<rparr>)"
      from Cons.IH[OF mem, of ?s1] obtain outs h where
        o: "scan_flags e as ?s1 = ?s1\<lparr>trace := trace ?s1 @ map Stdout (outs @ [licenses_txt e @ newline]),
             startHidden := h, status := Returned 0\<rparr>" by blast
      show ?thesis
        apply (rule exI[of _ "(''Starting hidden'' @ newline) # outs"])
        apply (rule exI[of _ h])
        using True False o by (simp add: stdout_def)
    next
      case h: False
      from Cons.IH[OF mem, of s] False h show ?thesis by simp
    qed
  qed
qed

lemma scan_flags_no_licenses:
  "''--licenses'' \<notin> set as \<Longrightarrow>
   \<exists>outs. scan_flags e as s =
     s\<lparr>trace := trace s @ map Stdout outs,
       startHidden := (startHidden s \<or> ''--hidden'' \<in> set as)\<rparr>"
proof (induction as arbitrary: s)
  case Nil
  then show ?case by (intro exI[of _ "[]"]) simp
next
  case (Cons a as)
  then have mem: "''--licenses'' \<notin> set as" and ne: "a \<noteq> ''--licenses''" by auto
  show ?case
  proof (cases "a = ''--hidden''")
    case True
    let ?s1 = "stdout (''Starting hidden'' @ newline) (s\<lparr>startHidden := True\<rparr>)"
    from Cons.IH[OF mem, of ?s1] obtain outs where
      o: "scan_flags e as ?s1 = ?s1\<lparr>trace := trace ?s1 @ map Stdout outs,
             startHidden := (startHidden ?s1 \<or> ''--hidden'' \<in> set as)\<rparr>" by blast
    show ?thesis
      apply (rule exI[of _ "(''Starting hidden'' @ newline) # outs"])
      using True ne o by (simp add: stdout_def)
  next
    case False
    from Cons.IH[OF mem, of s] False ne show ?thesis by simp
  qed
qed

lemma initial_run_simps:
  "status (initial_run e) = Running" "trace (initial_run e) = []"
  "startHidden (initial_run e) = False"
  by (simp_all add: initial_run_def)

lemma step_invoke:
  "status s = Running \<Longrightarrow> seq (invoke e c # ps) s =
     (case raises e c of
        None \<Rightarrow> seq ps (s\<lparr>trace := trace s @ [Invoke c]\<rparr>)
      | Some m \<Rightarrow> s\<lparr>trace := trace s @ [Invoke c], status := Thrown m\<rparr>)"
  by (simp add: invoke_def seq_not_running split: option.split)

lemma step_lib:
  "status s = Running \<Longrightarrow> seq (lib c # ps) s = seq ps (s\<lparr>trace := trace s @ [Lib c]\<rparr>)"
  by (simp add: lib_def)

lemma step_cond:
  "status s = Running \<Longrightarrow> seq (cond b p # ps) s = (if b then seq (p # ps) s else seq ps s)"
  by (simp add: cond_def)

lemma step_block:
  "seq (seq qs # ps) s = seq (qs @ ps) s"
  by (cases "status s = Running") (simp_all add: seq_append seq_not_running)

lemma step_return:
  "status s = Running \<Longrightarrow> seq (return_with c # ps) s = s\<lparr>status := Returned c\<rparr>"
  by (simp add: return_with_def seq_not_running)

lemma step_new_app:
  "status s = Running \<Longrightarrow>
   seq (new_app # ps) s = seq ps (s\<lparr>trace := trace s @ [Lib (NewGuiApplication (newArgv s))]\<rparr>)"
  by (simp add: new_app_def lib_def)

lemma step_set_logger:
  "status s = Running \<Longrightarrow>
   seq (set_logger f # ps) s = seq ps (s\<lparr>the_logger := f (the_logger s)\<rparr>)"
  by (simp add: set_logger_def)

lemma step_init_logger:
  "seq (init_logger e # ps) s =
   seq (invoke e InitLogger # set_logger (initLogger (log_file_path e)) # ps) s"
  unfolding init_logger_def step_block by simp

lemma step_update_log_level:
  "seq (update_log_level e # ps) s =
   seq (invoke e UpdateLogLevel
        # cond (logLevel_setting e \<noteq> [])
            (lib (QLog InfoLevel (''Setting log level to: '' @ logLevel_setting e)))
        # set_logger (updateLogLevel (logLevel_setting e)) # ps) s"
  unfolding update_log_level_def step_block by simp

lemma step_load_ui:
  "status s = Running \<Longrightarrow>
   seq (load_ui e # ps) s = (if startHidden s then seq ps s else seq (invoke e LoadUI # ps) s)"
  by (simp add: load_ui_def)

lemma step_set_ret:
  "status s = Running \<Longrightarrow> seq (set_ret r # ps) s = seq ps (s\<lparr>ret := r\<rparr>)"
  by (simp add: set_ret_def)

lemma step_return_ret:
  "status s = Running \<Longrightarrow> seq (return_ret # ps) s = s\<lparr>status := Returned (ret s)\<rparr>"
  by (simp add: return_ret_def return_with_def seq_not_running)

lemma step_append_args:
  "status s = Running \<Longrightarrow> seq (append_args e argv # ps) s =
     (case appendCommandLineArguments (platform.truncate e) (utf8_roundtrip e) argv of
        Inl u \<Rightarrow> s\<lparr>status := Undefined u\<rparr>
      | Inr args \<Rightarrow> seq ps (s\<lparr>newArgv := args\<rparr>))"
  by (simp add: append_args_def seq_not_running split: sum.split)

lemmas steps = step_invoke step_lib step_cond step_block step_return step_new_app
  step_set_logger step_init_logger step_update_log_level step_load_ui step_set_ret
  step_return_ret step_append_args seq.simps(1)

lemma main_try_licenses:
  assumes "''--licenses'' \<in> set (tl argv)"
  shows "\<exists>outs h. main_try e argv (initial_run e) =
     (initial_run e)\<lparr>trace := map Stdout (outs @ [licenses_txt e @ newline]),
        startHidden := h, status := Returned 0\<rparr>"
proof -
  from scan_flags_licenses[OF assms, of e "initial_run e"] obtain outs h where
    sc: "scan_flags e (tl argv) (initial_run e) =
      (initial_run e)\<lparr>trace := trace (initial_run e) @ map Stdout (outs @ [licenses_txt e @ newline]),
       startHidden := h, status := Returned 0\<rparr>" by blast
  show ?thesis
    unfolding main_try_def
    by (intro exI[of _ outs] exI[of _ h]) (simp add: sc initial_run_simps seq_not_running)
qed

lemma main_try_no_licenses:
  assumes "''--licenses'' \<notin> set (tl argv)"
  shows "\<exists>outs. main_try e argv (initial_run e) =
     seq (startup e argv)
       ((initial_run e)\<lparr>trace := map Stdout outs, startHidden := ''--hidden'' \<in> set (tl argv)\<rparr>)"
proof -
  from scan_flags_no_licenses[OF assms, of e "initial_run e"] obtain outs where
    sc: "scan_flags e (tl argv) (initial_run e) =
      (initial_run e)\<lparr>trace := trace (initial_run e) @ map Stdout outs,
       startHidden := (startHidden (initial_run e) \<or> ''--hidden'' \<in> set (tl argv))\<rparr>" by blast
  show ?thesis
    unfolding main_try_def
    by (rule exI[of _ outs]) (simp add: sc initial_run_simps)
qed

lemma catch_FatalException_eq:
  "catch_FatalException e argv m (s\<lparr>status := Running\<rparr>) =
     s\<lparr>trace := trace s @ handler_events e argv m, status := Returned 1\<rparr>"
  by (simp add: catch_FatalException_def handler_events_def steps del: seq.simps(2))

lemma main_thrown:
  "status (main_try e argv (initial_run e)) = Thrown m \<Longrightarrow>
   main e argv = (main_try e argv (initial_run e))
     \<lparr>trace := trace (main_try e argv (initial_run e)) @ handler_events e argv m,
      status := Returned 1\<rparr>"
  by (simp add: main_def Let_def catch_FatalException_eq)

lemma main_not_thrown:
  "\<forall>m. status (main_try e argv (initial_run e)) \<noteq> Thrown m \<Longrightarrow>
   main e argv = main_try e argv (initial_run e)"
  by (cases "status (main_try e argv (initial_run e))") (simp_all add: main_def Let_def)

lemma invoked_main:
  "invoked c (main e argv) = invoked c (main_try e argv (initial_run e))"
proof (cases "\<exists>m. status (main_try e argv (initial_run e)) = Thrown m")
  case True
  then obtain m where "status (main_try e argv (initial_run e)) = Thrown m" by blast
  from main_thrown[OF this] show ?thesis
    by (auto simp: invoked_def handler_events_def)
next
  case False
  then show ?thesis using main_not_thrown[of e argv] by simp
qed

lemma licenses_run:
  assumes "''--licenses'' \<in> set (tl argv)"
  shows "exit_code (main e argv) = Some 0
       \<and> Stdout (licenses_txt e @ newline) \<in> set (trace (main e argv))
       \<and> (\<forall>ev \<in> set (trace (main e argv)). \<exists>str. ev = Stdout str)
       \<and> the_logger (main e argv) = logger0 e"
proof -
  from main_try_licenses[OF assms, of e] obtain outs h where
    "main_try e argv (initial_run e) =
     (initial_run e)\<lparr>trace := map Stdout (outs @ [licenses_txt e @ newline]),
        startHidden := h, status := Returned 0\<rparr>" by blast
  then show ?thesis
    by (auto simp: main_def exit_code_def initial_run_def)
qed

lemma seq_invariant:
  assumes "\<And>p s. p \<in> set ps \<Longrightarrow> status s = Running \<Longrightarrow> I s \<Longrightarrow> I (p s)" "I s"
  shows "I (seq ps s)"
  using assms
proof (induction ps arbitrary: s)
  case Nil
  then show ?case by simp
next
  case (Cons p ps)
  show ?case
  proof (cases "status s = Running")
    case True
    have "I (p s)" using Cons.prems(1)[of p s] True Cons.prems(2) by simp
    then have "I (seq ps (p s))" using Cons.IH[of "p s"] Cons.prems(1) by simp
    with True show ?thesis by simp
  next
    case False
    with Cons.prems(2) show ?thesis by simp
  qed
qed

lemma emits_only_invoke: "E (Invoke c) \<Longrightarrow> emits_only E (invoke e c)"
  by (simp add: emits_only_def invoke_def split: option.split)

lemma emits_only_lib: "E (Lib c) \<Longrightarrow> emits_only E (lib c)"
  by (simp add: emits_only_def lib_def)

lemma emits_only_return: "emits_only E (return_with c)"
  by (simp add: emits_only_def return_with_def)

lemma emits_only_cond: "emits_only E p \<Longrightarrow> emits_only E (cond b p)"
  by (simp add: emits_only_def cond_def)

lemma emits_only_new_app: "(\<And>l. E (Lib l)) \<Longrightarrow> emits_only E new_app"
  by (simp add: emits_only_def new_app_def lib_def)

lemma emits_only_set_logger: "emits_only E (set_logger f)"
  by (simp add: emits_only_def set_logger_def)

lemma emits_only_set_ret: "emits_only E (set_ret r)"
  by (simp add: emits_only_def set_ret_def)

lemma emits_only_return_ret: "emits_only E return_ret"
  by (simp add: emits_only_def return_ret_def return_with_def)

lemma emits_only_append_args: "emits_only E (append_args e argv)"
  by (simp add: emits_only_def append_args_def split: sum.split)

lemma emits_only_seq:
  assumes "\<And>p. p \<in> set ps \<Longrightarrow> emits_only E p"
  shows "emits_only E (seq ps)"
  unfolding emits_only_def
proof (intro allI impI)
  fix s :: run
  assume "status s = Running"
  have "(\<exists>evs. trace (seq ps s0) = trace s0 @ evs \<and> list_all E evs)
        \<and> startHidden (seq ps s0) = startHidden s0" for s0
    using assms
  proof (induction ps arbitrary: s0)
    case Nil
    then show ?case by simp
  next
    case (Cons p ps)
    show ?case
    proof (cases "status s0 = Running")
      case True
      from Cons.prems[of p] True obtain evs1 where
        1: "trace (p s0) = trace s0 @ evs1" "list_all E evs1" "startHidden (p s0) = startHidden s0"
        by (auto simp: emits_only_def)
      from Cons.IH[of "p s0"] Cons.prems obtain evs2 where
        2: "trace (seq ps (p s0)) = trace (p s0) @ evs2" "list_all E evs2"
          "startHidden (seq ps (p s0)) = startHidden (p s0)"
        by auto
      from 1 2 True show ?thesis by (auto intro: exI[of _ "evs1 @ evs2"])
    next
      case False
      then show ?thesis by simp
    qed
  qed
  then show "(\<exists>evs. trace (seq ps s) = trace s @ evs \<and> list_all E evs)
        \<and> startHidden (seq ps s) = startHidden s" .
qed

lemma emits_only_init_logger: "E (Invoke InitLogger) \<Longrightarrow> emits_only E (init_logger e)"
  unfolding init_logger_def
  by (rule emits_only_seq) (auto intro: emits_only_invoke emits_only_set_logger)

lemma emits_only_update_log_level:
  "E (Invoke UpdateLogLevel) \<Longrightarrow> (\<And>l. E (Lib l)) \<Longrightarrow> emits_only E (update_log_level e)"
  unfolding update_log_level_def
  by (rule emits_only_seq)
     (auto intro: emits_only_invoke emits_only_set_logger emits_only_cond emits_only_lib)

lemma emits_only_load_ui: "E (Invoke LoadUI) \<Longrightarrow> emits_only E (load_ui e)"
  by (simp add: emits_only_def load_ui_def invoke_def split: option.split)

lemmas emits_only_intros = emits_only_invoke emits_only_lib emits_only_return emits_only_cond
  emits_only_new_app emits_only_set_logger emits_only_set_ret emits_only_return_ret
  emits_only_append_args emits_only_init_logger emits_only_update_log_level emits_only_load_ui

lemma emits_only_trace:
  assumes "emits_only E p" "status s = Running" "\<not> E ev"
  shows "ev \<in> set (trace (p s)) \<longleftrightarrow> ev \<in> set (trace s)"
proof -
  from assms(1,2) obtain evs where "trace (p s) = trace s @ evs" "list_all E evs"
    by (auto simp: emits_only_def)
  with assms(3) show ?thesis by (auto simp: list_all_iff)
qed

lemma startup_upto_update_check:
  "emits_only (\<lambda>ev. ev \<noteq> Invoke CheckForUpdates \<and> ev \<noteq> Invoke ComponentInitialize \<and> ev \<noteq> Invoke LoadUI)
     (seq (take 14 (startup e argv)))"
  unfolding startup_def
  by (rule emits_only_seq) (auto intro!: emits_only_intros emits_only_seq)

lemma seq_take_drop: "seq ps s = seq (drop k ps) (seq (take k ps) s)"
  using seq_append[of "take k ps" "drop k ps" s] by simp

lemma quiet_env_simps:
  "q_os_mac quiet_env = False" "q_os_unix quiet_env = True" "q_os_win32 quiet_env = False"
  "konvergo_openelec quiet_env = False" "raises quiet_env c = None"
  "utf8_roundtrip quiet_env a = a" "licenses_txt quiet_env = ''licenses''"
  "ensureUnique_result quiet_env = True" "checkForUpdates_result quiet_env = False"
  "remoteInspector_setting quiet_env = False" "logLevel_setting quiet_env = []"
  "exec_result quiet_env = 0" "tr quiet_env a = a"
  "konvergo_openelec (platform.truncate quiet_env) = False"
  by (simp_all add: quiet_env_def platform.defs)

lemma openelec_truncate: "konvergo_openelec (platform.truncate e) = konvergo_openelec e"
  by (simp add: platform.defs)

lemma step_scan_flags:
  "status s = Running \<Longrightarrow> seq (scan_flags e as # ps) s = seq ps (scan_flags e as s)"
  by simp

lemmas run_simps = steps step_scan_flags quiet_env_simps initial_run_simps
  main_try_def startup_def appendCommandLineArguments_def stdout_def return_with_def
  openelec_truncate Let_def

lemma hidden_invariant:
  assumes "p \<in> set (startup e argv)" "status s = Running"
    "startHidden s \<and> Invoke LoadUI \<notin> set (trace s)"
  shows "startHidden (p s) \<and> Invoke LoadUI \<notin> set (trace (p s))"
proof -
  have "list_all (\<lambda>p. emits_only (\<lambda>ev. ev \<noteq> Invoke LoadUI) p \<or> p = load_ui e) (startup e argv)"
    unfolding startup_def by (auto intro!: emits_only_intros emits_only_seq)
  with assms(1) have "emits_only (\<lambda>ev. ev \<noteq> Invoke LoadUI) p \<or> p = load_ui e"
    by (simp add: list_all_iff)
  then show ?thesis
  proof
    assume eo: "emits_only (\<lambda>ev. ev \<noteq> Invoke LoadUI) p"
    then have "startHidden (p s) = startHidden s" using assms(2) by (simp add: emits_only_def)
    moreover have "Invoke LoadUI \<in> set (trace (p s)) \<longleftrightarrow> Invoke LoadUI \<in> set (trace s)"
      by (rule emits_only_trace[OF eo assms(2)]) simp
    ultimately show ?thesis using assms(3) by simp
  next
    assume "p = load_ui e"
    with assms(3) show ?thesis by (simp add: load_ui_def)
  qed
qed

lemma hidden_never_loads_ui:
  assumes "''--hidden'' \<in> set (tl argv)"
  shows "\<not> invoked LoadUI (main e argv)"
proof (cases "''--licenses'' \<in> set (tl argv)")
  case True
  from licenses_run[OF True, of e] show ?thesis by (auto simp: invoked_def)
next
  case False
  from main_try_no_licenses[OF False, of e] obtain outs where
    mt: "main_try e argv (initial_run e) =
     seq (startup e argv)
       ((initial_run e)\<lparr>trace := map Stdout outs, startHidden := ''--hidden'' \<in> set (tl argv)\<rparr>)"
    by blast
  let ?s1 = "(initial_run e)\<lparr>trace := map Stdout outs, startHidden := ''--hidden'' \<in> set (tl argv)\<rparr>"
  have "startHidden (seq (startup e argv) ?s1) \<and> Invoke LoadUI \<notin> set (trace (seq (startup e argv) ?s1))"
  proof (rule seq_invariant[where I = "\<lambda>s. startHidden s \<and> Invoke LoadUI \<notin> set (trace s)"])
    show "startHidden ?s1 \<and> Invoke LoadUI \<notin> set (trace ?s1)" using assms by auto
  qed (rule hidden_invariant)
  then show ?thesis unfolding invoked_main mt by (simp add: invoked_def)
qed

lemma passes_invoke: "raises e c = None \<Longrightarrow> passes (invoke e c)"
  by (simp add: passes_def invoke_def)

lemma passes_lib: "passes (lib c)"
  by (simp add: passes_def lib_def)

lemma passes_cond: "(b \<Longrightarrow> passes p) \<Longrightarrow> passes (cond b p)"
  by (simp add: passes_def cond_def)

lemma passes_new_app: "passes new_app"
  by (simp add: passes_def new_app_def lib_def)

lemma passes_set_logger: "passes (set_logger f)"
  by (simp add: passes_def set_logger_def)

lemma passes_append_args:
  "appendCommandLineArguments (platform.truncate e) (utf8_roundtrip e) argv = Inr args \<Longrightarrow>
   passes (append_args e argv)"
  by (simp add: passes_def append_args_def)

lemma passes_load_ui: "raises e LoadUI = None \<Longrightarrow> passes (load_ui e)"
  by (simp add: passes_def load_ui_def invoke_def)

lemma passes_seq_invokes:
  assumes "\<And>p. p \<in> set ps \<Longrightarrow> passes p" "status s = Running"
  shows "status (seq ps s) = Running
       \<and> (\<forall>p ev. p \<in> set ps \<and> (\<forall>s'. status s' = Running \<longrightarrow> ev \<in> set (trace (p s')))
              \<longrightarrow> ev \<in> set (trace (seq ps s)))
       \<and> set (trace s) \<subseteq> set (trace (seq ps s)) \<and> ret (seq ps s) = ret s"
  using assms
proof (induction ps arbitrary: s)
  case Nil
  then show ?case by simp
next
  case (Cons p ps)
  from Cons.prems(1)[of p] Cons.prems(2) obtain evs where
    p: "status (p s) = Running" "trace (p s) = trace s @ evs" "ret (p s) = ret s"
    by (auto simp: passes_def)
  from Cons.IH[of "p s"] Cons.prems(1) p(1) have
    IH: "status (seq ps (p s)) = Running"
      "\<forall>q ev. q \<in> set ps \<and> (\<forall>s'. status s' = Running \<longrightarrow> ev \<in> set (trace (q s')))
              \<longrightarrow> ev \<in> set (trace (seq ps (p s)))"
      "set (trace (p s)) \<subseteq> set (trace (seq ps (p s)))" "ret (seq ps (p s)) = ret (p s)"
    by auto
  have "ev \<in> set (trace (seq ps (p s)))"
    if "q \<in> set (p # ps)" "\<forall>s'. status s' = Running \<longrightarrow> ev \<in> set (trace (q s'))" for q ev
  proof (cases "q = p")
    case True
    with that(2) Cons.prems(2) have "ev \<in> set (trace (p s))" by simp
    with IH(3) show ?thesis by blast
  next
    case False
    with that IH(2) show ?thesis by simp
  qed
  with IH p Cons.prems(2) show ?case by auto
qed

lemma invoke_in_trace: "Invoke c \<in> set (trace (invoke e c s))"
  by (simp add: invoke_def split: option.split)

lemma init_logger_in_trace:
  "status s = Running \<Longrightarrow> Invoke InitLogger \<in> set (trace (init_logger e s))"
  by (simp add: init_logger_def invoke_def set_logger_def split: option.split)

lemma passes_seq:
  assumes "\<And>p. p \<in> set ps \<Longrightarrow> passes p"
  shows "passes (seq ps)"
  unfolding passes_def
proof (intro allI impI)
  fix s :: run assume r: "status s = Running"
  have mono: "\<exists>evs. trace (seq qs s0) = trace s0 @ evs" if "\<And>p. p \<in> set qs \<Longrightarrow> passes p" "status s0 = Running" for qs s0
    using that
  proof (induction qs arbitrary: s0)
    case Nil
    then show ?case by simp
  next
    case (Cons q qs)
    from Cons.prems(1)[of q] Cons.prems(2) obtain evs where
      q: "status (q s0) = Running" "trace (q s0) = trace s0 @ evs"
      by (auto simp: passes_def)
    from Cons.IH[of "q s0"] Cons.prems(1) q(1) obtain evs2 where
      "trace (seq qs (q s0)) = trace (q s0) @ evs2" by auto
    with q Cons.prems(2) show ?case by simp
  qed
  from passes_seq_invokes[OF assms r] mono[OF assms r]
  show "status (seq ps s) = Running \<and> (\<exists>evs. trace (seq ps s) = trace s @ evs) \<and> ret (seq ps s) = ret s"
    by blast
qed

lemma passes_init_logger: "raises e InitLogger = None \<Longrightarrow> passes (init_logger e)"
  unfolding init_logger_def
  by (rule passes_seq) (auto intro: passes_invoke passes_set_logger)

lemma passes_update_log_level: "raises e UpdateLogLevel = None \<Longrightarrow> passes (update_log_level e)"
  unfolding update_log_level_def
  by (rule passes_seq) (auto intro: passes_invoke passes_set_logger passes_cond passes_lib)

lemmas passes_intros = passes_invoke passes_lib passes_cond passes_new_app passes_set_logger
  passes_append_args passes_load_ui passes_init_logger passes_update_log_level

lemma full_startup:
  assumes nl: "''--licenses'' \<notin> set (tl argv)" and nr: "\<forall>c. raises e c = None"
    and un: "ensureUnique_result e" and nu: "\<not> checkForUpdates_result e"
    and ar: "appendCommandLineArguments (platform.truncate e) (utf8_roundtrip e) argv = Inr args"
  shows "invoked SetupCrashDumper (main e argv) \<and> invoked EnsureUnique (main e argv)
       \<and> invoked InitLogger (main e argv) \<and> invoked CheckForUpdates (main e argv)
       \<and> invoked ComponentInitialize (main e argv) \<and> invoked AppExec (main e argv)
       \<and> invoked Unload (main e argv)
       \<and> exit_code (main e argv) = Some (exec_result e)"
proof -
  from main_try_no_licenses[OF nl, of e] obtain outs where
    mt: "main_try e argv (initial_run e) =
     seq (startup e argv)
       ((initial_run e)\<lparr>trace := map Stdout outs, startHidden := ''--hidden'' \<in> set (tl argv)\<rparr>)"
    by blast
  define s1 where "s1 = (initial_run e)\<lparr>trace := map Stdout outs, startHidden := ''--hidden'' \<in> set (tl argv)\<rparr>"
  define s2 where "s2 = seq (take 27 (startup e argv)) s1"
  have run1: "status s1 = Running" by (simp add: s1_def initial_run_simps)
  have all: "p \<in> set (take 27 (startup e argv)) \<Longrightarrow> passes p" for p
    unfolding startup_def using nr un nu ar
    by (auto intro!: passes_intros passes_seq)
  from passes_seq_invokes[of "take 27 (startup e argv)" s1, OF all run1]
  have s2: "status s2 = Running"
    and calls: "\<forall>p ev. p \<in> set (take 27 (startup e argv))
        \<and> (\<forall>s'. status s' = Running \<longrightarrow> ev \<in> set (trace (p s'))) \<longrightarrow> ev \<in> set (trace s2)"
    unfolding s2_def by blast+
  have inv_c: "Invoke c \<in> set (trace s2)" if "invoke e c \<in> set (take 27 (startup e argv))" for c
    using calls that invoke_in_trace by blast
  have c1: "Invoke SetupCrashDumper \<in> set (trace s2)" "Invoke EnsureUnique \<in> set (trace s2)"
    "Invoke CheckForUpdates \<in> set (trace s2)" "Invoke ComponentInitialize \<in> set (trace s2)"
    "Invoke AppExec \<in> set (trace s2)"
    by (rule inv_c, simp add: startup_def)+
  have fin: "main_try e argv (initial_run e) = seq (drop 27 (startup e argv)) s2"
    unfolding mt s2_def s1_def by (rule seq_take_drop)
  have res: "main_try e argv (initial_run e) =
      s2\<lparr>ret := exec_result e,
         trace := trace s2 @ [Invoke Unload, Invoke DeleteUniqueApplication],
         status := Returned (exec_result e)\<rparr>"
    unfolding fin startup_def using s2 nr
    by (simp add: steps del: seq.simps(2))
  have "init_logger e \<in> set (take 27 (startup e argv))" by (simp add: startup_def)
  with calls init_logger_in_trace have il: "Invoke InitLogger \<in> set (trace s2)" by blast
  have "main e argv = main_try e argv (initial_run e)"
    using res by (intro main_not_thrown) simp
  with res c1 il show ?thesis by (simp add: exit_code_def invoked_def)
qed

lemma is_phase_simps:
  "is_phase (Invoke c) \<longleftrightarrow> c \<in> {SetupCrashDumper, EnsureUnique, InitLogger, CheckForUpdates,
      ComponentInitialize, LoadUI, AppExec, Unload}"
  "\<not> is_phase (Lib l)" "\<not> is_phase (Stdout str)"
  by (auto simp: is_phase_def phase_calls_def)

lemma seq_phases:
  assumes "\<forall>(p, cs) \<in> set pcs. emits_phases h p cs" "startHidden s = h"
  shows "\<exists>k. filter is_phase (trace (seq (map fst pcs) s))
            = filter is_phase (trace s) @ map Invoke (take k (concat (map snd pcs)))"
  using assms
proof (induction pcs arbitrary: s)
  case Nil
  then show ?case by simp
next
  case (Cons a pcs)
  obtain p cs where a: "a = (p, cs)" by (cases a)
  show ?case
  proof (cases "status s = Running")
    case False
    then show ?thesis by (intro exI[of _ 0]) simp
  next
    case True
    with Cons.prems a have
      p: "filter is_phase (trace (p s)) = filter is_phase (trace s) @ map Invoke cs"
        "startHidden (p s) = h"
      by (auto simp: emits_phases_def)
    from Cons.IH[of "p s"] Cons.prems(1) p(2) obtain k where
      k: "filter is_phase (trace (seq (map fst pcs) (p s)))
            = filter is_phase (trace (p s)) @ map Invoke (take k (concat (map snd pcs)))"
      by auto
    show ?thesis
      by (rule exI[of _ "length cs + k"]) (simp add: a True k p(1))
  qed
qed

lemma emits_phases_quiet:
  assumes "emits_only (\<lambda>ev. \<not> is_phase ev) p"
  shows "emits_phases h p []"
  unfolding emits_phases_def
proof (intro allI impI)
  fix s :: run assume a: "status s = Running \<and> startHidden s = h"
  with assms obtain evs where "trace (p s) = trace s @ evs" "list_all (\<lambda>ev. \<not> is_phase ev) evs"
    "startHidden (p s) = startHidden s"
    by (auto simp: emits_only_def)
  moreover from this(2) have "filter is_phase evs = []" by (simp add: list_all_iff)
  ultimately show "filter is_phase (trace (p s)) = filter is_phase (trace s) @ map Invoke []
      \<and> startHidden (p s) = h"
    using a by simp
qed

lemma emits_phases_invoke: "is_phase (Invoke c) \<Longrightarrow> emits_phases h (invoke e c) [c]"
  by (simp add: emits_phases_def invoke_def split: option.split)

lemma emits_phases_init_logger: "emits_phases h (init_logger e) [InitLogger]"
  by (simp add: emits_phases_def init_logger_def invoke_def set_logger_def is_phase_simps
      split: option.split)

lemma emits_phases_load_ui: "emits_phases h (load_ui e) (if h then [] else [LoadUI])"
  by (simp add: emits_phases_def load_ui_def invoke_def is_phase_simps split: option.split)

lemma startup_phases:
  "\<forall>(p, cs) \<in> set (zip (startup e argv)
      [[], [], [], [], [], [SetupCrashDumper], [], [EnsureUnique], [], [], [InitLogger],
       [], [], [], [CheckForUpdates], [], [], [], [ComponentInitialize], [], [], [], [], [],
       [], (if h then [] else [LoadUI]), [AppExec], [], [Unload], [], []]).
     emits_phases h p cs"
  unfolding startup_def
  by (auto simp: emits_phases_invoke emits_phases_init_logger emits_phases_load_ui
      is_phase_simps intro!: emits_phases_quiet emits_only_intros emits_only_seq)

lemma phases_in_order:
  "\<exists>k. filter is_phase (trace (main e argv))
        = map Invoke (take k (phase_calls (''--hidden'' \<in> set (tl argv))))"
proof -
  have tr: "filter is_phase (trace (main e argv))
      = filter is_phase (trace (main_try e argv (initial_run e)))"
  proof (cases "\<exists>m. status (main_try e argv (initial_run e)) = Thrown m")
    case True
    then obtain m where "status (main_try e argv (initial_run e)) = Thrown m" by blast
    from main_thrown[OF this] show ?thesis
      by (simp add: handler_events_def is_phase_simps)
  next
    case False
    then show ?thesis using main_not_thrown[of e argv] by simp
  qed
  show ?thesis
  proof (cases "''--licenses'' \<in> set (tl argv)")
    case True
    from main_try_licenses[OF True, of e] obtain outs h where
      "main_try e argv (initial_run e) =
       (initial_run e)\<lparr>trace := map Stdout (outs @ [licenses_txt e @ newline]),
          startHidden := h, status := Returned 0\<rparr>" by blast
    then have "filter is_phase (trace (main_try e argv (initial_run e))) = []"
      by (simp add: is_phase_simps filter_empty_conv)
    then show ?thesis unfolding tr by (intro exI[of _ 0]) simp
  next
    case False
    define h where "h = (''--hidden'' \<in> set (tl argv))"
    from main_try_no_licenses[OF False, of e] obtain outs where
      mt: "main_try e argv (initial_run e) =
       seq (startup e argv) ((initial_run e)\<lparr>trace := map Stdout outs, startHidden := h\<rparr>)"
      unfolding h_def by blast
    let ?s1 = "(initial_run e)\<lparr>trace := map Stdout outs, startHidden := h\<rparr>"
    let ?ann = "[[], [], [], [], [], [SetupCrashDumper], [], [EnsureUnique], [], [], [InitLogger],
       [], [], [], [CheckForUpdates], [], [], [], [ComponentInitialize], [], [], [], [], [],
       [], (if h then [] else [LoadUI]), [AppExec], [], [Unload], [], []]"
    have fst: "map fst (zip (startup e argv) ?ann) = startup e argv"
      by (simp add: startup_def)
    have snd: "concat (map snd (zip (startup e argv) ?ann)) = phase_calls h"
      by (simp add: startup_def phase_calls_def)
    have "startHidden ?s1 = h" by simp
    from seq_phases[OF startup_phases this, of e argv] obtain k where
      "filter is_phase (trace (seq (startup e argv) ?s1))
         = filter is_phase (trace ?s1) @ map Invoke (take k (phase_calls h))"
      unfolding fst snd by blast
    moreover have "filter is_phase (trace ?s1) = []"
      by (simp add: is_phase_simps filter_empty_conv)
    ultimately show ?thesis unfolding tr mt h_def by (intro exI[of _ k]) simp
  qed
qed

lemma seq_grows:
  assumes "\<And>p. p \<in> set ps \<Longrightarrow> emits_only (\<lambda>_. True) p"
  shows "\<exists>evs. trace (seq ps s) = trace s @ evs"
proof (cases "status s = Running")
  case True
  with emits_only_seq[of ps "\<lambda>_. True", OF assms] show ?thesis
    by (auto simp: emits_only_def)
next
  case False
  then show ?thesis by (simp add: seq_not_running)
qed

lemma seq_running_all:
  assumes "\<And>p. p \<in> set ps \<Longrightarrow> emits_only (\<lambda>_. True) p"
    and "status (seq ps s) = Running" and "p \<in> set ps"
    and "\<forall>s'. status s' = Running \<longrightarrow> (\<exists>ev \<in> set (trace (p s')). P ev)"
  shows "\<exists>ev \<in> set (trace (seq ps s)). P ev"
  using assms
proof (induction ps arbitrary: s)
  case Nil
  then show ?case by simp
next
  case (Cons q qs)
  have rs: "status s = Running"
    using Cons.prems(2) seq_not_running[of s "q # qs"] by (cases "status s = Running") auto
  then have eq: "seq (q # qs) s = seq qs (q s)" by simp
  have rq: "status (q s) = Running"
    using Cons.prems(2) eq seq_not_running[of "q s" qs] by (cases "status (q s) = Running") auto
  show ?case
  proof (cases "p = q")
    case True
    with Cons.prems(4) rs obtain ev where ev: "ev \<in> set (trace (q s))" "P ev" by blast
    from seq_grows[of qs "q s"] Cons.prems(1) obtain evs where
      "trace (seq qs (q s)) = trace (q s) @ evs" by auto
    with ev eq show ?thesis by auto
  next
    case False
    with Cons.prems(3) have "p \<in> set qs" by simp
    from Cons.IH[OF _ _ this Cons.prems(4), of "q s"] Cons.prems(1,2) eq show ?thesis by auto
  qed
qed

lemma startup_grows: "p \<in> set (startup e argv) \<Longrightarrow> emits_only (\<lambda>_. True) p"
  unfolding startup_def by (auto intro!: emits_only_intros emits_only_seq)

lemma trace_main:
  "\<exists>extra. trace (main e argv) = trace (main_try e argv (initial_run e)) @ extra"
proof (cases "\<exists>m. status (main_try e argv (initial_run e)) = Thrown m")
  case True
  then obtain m where "status (main_try e argv (initial_run e)) = Thrown m" by blast
  from main_thrown[OF this] show ?thesis by simp
next
  case False
  then show ?thesis using main_not_thrown[of e argv] by simp
qed

lemma crash_dumper_after_preinit:
  assumes "invoked SetupCrashDumper (main e argv)"
  shows "\<exists>pre post args. trace (main e argv) = pre @ Invoke SetupCrashDumper # post
       \<and> Invoke PreinitQt \<in> set pre \<and> Lib (NewGuiApplication args) \<in> set pre"
proof (cases "''--licenses'' \<in> set (tl argv)")
  case True
  from licenses_run[OF True, of e] assms show ?thesis by (auto simp: invoked_def)
next
  case False
  from main_try_no_licenses[OF False, of e] obtain outs where
    mt: "main_try e argv (initial_run e) =
     seq (startup e argv)
       ((initial_run e)\<lparr>trace := map Stdout outs, startHidden := ''--hidden'' \<in> set (tl argv)\<rparr>)"
    by blast
  define s1 where "s1 = (initial_run e)\<lparr>trace := map Stdout outs, startHidden := ''--hidden'' \<in> set (tl argv)\<rparr>"
  define s2 where "s2 = seq (take 5 (startup e argv)) s1"
  have run1: "status s1 = Running" by (simp add: s1_def initial_run_simps)
  have "emits_only (\<lambda>ev. ev \<noteq> Invoke SetupCrashDumper) (seq (take 5 (startup e argv)))"
    unfolding startup_def
    by (rule emits_only_seq) (auto intro!: emits_only_intros emits_only_seq)
  with run1 obtain evs where
    evs: "trace s2 = trace s1 @ evs" "list_all (\<lambda>ev. ev \<noteq> Invoke SetupCrashDumper) evs"
    unfolding emits_only_def s2_def by blast
  then have no: "Invoke SetupCrashDumper \<notin> set (trace s2)"
    by (auto simp: s1_def list_all_iff)
  have fin: "main_try e argv (initial_run e) = seq (drop 5 (startup e argv)) s2"
    unfolding mt s2_def s1_def by (rule seq_take_drop)
  have inv': "Invoke SetupCrashDumper \<in> set (trace (main_try e argv (initial_run e)))"
    using assms unfolding invoked_main by (simp add: invoked_def)
  have running: "status s2 = Running"
  proof (rule ccontr)
    assume "status s2 \<noteq> Running"
    then have "main_try e argv (initial_run e) = s2" unfolding fin by (rule seq_not_running)
    with inv' no show False by simp
  qed
  have grows5: "p \<in> set (take 5 (startup e argv)) \<Longrightarrow> emits_only (\<lambda>_. True) p" for p
    using startup_grows[of p e argv] by (meson in_set_takeD)
  have pre1: "\<exists>ev \<in> set (trace s2). ev = Invoke PreinitQt"
    unfolding s2_def
  proof (rule seq_running_all[where p = "invoke e PreinitQt"])
    show "status (seq (take 5 (startup e argv)) s1) = Running" using running by (simp add: s2_def)
    show "invoke e PreinitQt \<in> set (take 5 (startup e argv))" by (simp add: startup_def)
    show "\<forall>s'. status s' = Running \<longrightarrow> (\<exists>ev\<in>set (trace (invoke e PreinitQt s')). ev = Invoke PreinitQt)"
      by (simp add: invoke_in_trace)
  qed (rule grows5)
  have pre2: "\<exists>ev \<in> set (trace s2). \<exists>args. ev = Lib (NewGuiApplication args)"
    unfolding s2_def
  proof (rule seq_running_all[where p = new_app])
    show "status (seq (take 5 (startup e argv)) s1) = Running" using running by (simp add: s2_def)
    show "new_app \<in> set (take 5 (startup e argv))" by (simp add: startup_def)
    show "\<forall>s'. status s' = Running \<longrightarrow> (\<exists>ev\<in>set (trace (new_app s')). \<exists>args. ev = Lib (NewGuiApplication args))"
      by (simp add: new_app_def lib_def)
  qed (rule grows5)
  have d5: "drop 5 (startup e argv) = invoke e SetupCrashDumper # drop 6 (startup e argv)"
    by (simp add: startup_def)
  have grows6: "p \<in> set (drop 6 (startup e argv)) \<Longrightarrow> emits_only (\<lambda>_. True) p" for p
    using startup_grows[of p e argv] by (meson in_set_dropD)
  have "\<exists>post. trace (main_try e argv (initial_run e)) = trace s2 @ Invoke SetupCrashDumper # post"
  proof (cases "raises e SetupCrashDumper")
    case None
    let ?s3 = "s2\<lparr>trace := trace s2 @ [Invoke SetupCrashDumper]\<rparr>"
    from seq_grows[of "drop 6 (startup e argv)" ?s3] grows6 obtain post where
      "trace (seq (drop 6 (startup e argv)) ?s3) = trace ?s3 @ post" by auto
    then show ?thesis unfolding fin d5 using running None by (simp add: step_invoke del: seq.simps(2))
  next
    case (Some m)
    then show ?thesis unfolding fin d5 using running by (simp add: step_invoke del: seq.simps(2))
  qed
  then obtain post where
    "trace (main_try e argv (initial_run e)) = trace s2 @ Invoke SetupCrashDumper # post" by blast
  moreover from trace_main[of e argv] obtain extra where
    "trace (main e argv) = trace (main_try e argv (initial_run e)) @ extra" by blast
  ultimately have "trace (main e argv) = trace s2 @ Invoke SetupCrashDumper # (post @ extra)"
    by simp
  with pre1 pre2 show ?thesis by blast
qed

lemma seq_stopped: "status s \<noteq> Running \<Longrightarrow> seq ps s = s"
  by (rule seq_not_running)

lemma copy_args_in_range:
  "iarg + length as \<le> 16 \<Longrightarrow> \<forall>a \<in> set as. length a < 256 \<Longrightarrow> copy_args iarg as = Inr as"
  by (induction as arbitrary: iarg) auto

lemma appendCommandLineArguments_in_range:
  assumes "length argv + (if konvergo_openelec pf then 3 else 2) \<le> 16"
    and "\<forall>a \<in> set argv. length (rt a) < 256"
  shows "appendCommandLineArguments pf rt argv =
     Inr (map rt argv @ (if konvergo_openelec pf then [''--disable-gpu''] else [])
          @ [''--enable-viewport'', ''--enable-viewport-meta''])"
  using assms
  by (auto simp: appendCommandLineArguments_def Let_def intro!: copy_args_in_range)

lemma long_argument_overflows_buffer:
  "appendCommandLineArguments (platform.truncate quiet_env) (utf8_roundtrip quiet_env)
     [''pmp'', replicate 256 (CHR ''a'')]
   = Inl StrcpyOverflow"
  by (simp add: appendCommandLineArguments_def quiet_env_simps)

lemma take_append_take: "take n (xs @ take n ys) = take n (xs @ ys)"
  by simp

lemma write_records_all_rotate:
  assumes "\<forall>l \<in> set ls. length l > max_size_bytes dest" "ls \<noteq> []"
  shows "write_records dest ls \<lparr>active = [], rotated = R\<rparr>
       = \<lparr>active = [], rotated = take (max_old_log_count dest) (rev ls @ R)\<rparr>"
  using assms
proof (induction ls arbitrary: R)
  case Nil
  then show ?case by simp
next
  case (Cons l ls)
  have step: "write_record dest l \<lparr>active = [], rotated = R\<rparr>
      = \<lparr>active = [], rotated = take (max_old_log_count dest) (l # R)\<rparr>"
    using Cons.prems(1) by (simp add: write_record_def rotate_def Let_def)
  show ?case
  proof (cases "ls = []")
    case True
    with step show ?thesis by (simp add: write_records_def)
  next
    case False
    from Cons.IH[OF _ False, of "take (max_old_log_count dest) (l # R)"] Cons.prems(1)
    have "write_records dest ls \<lparr>active = [], rotated = take (max_old_log_count dest) (l # R)\<rparr>
        = \<lparr>active = [], rotated = take (max_old_log_count dest)
            (rev ls @ take (max_old_log_count dest) (l # R))\<rparr>"
      by simp
    also have "take (max_old_log_count dest) (rev ls @ take (max_old_log_count dest) (l # R))
        = take (max_old_log_count dest) (rev ls @ l # R)"
      by (rule take_append_take)
    finally show ?thesis using step by (simp add: write_records_def)
  qed
qed

lemma write_record_keeps_bound:
  "length (rotated d) \<le> max_old_log_count dest \<Longrightarrow>
   length (rotated (write_record dest l d)) \<le> max_old_log_count dest"
  by (simp add: write_record_def rotate_def Let_def)

lemma write_records_keeps_bound:
  "length (rotated d) \<le> max_old_log_count dest \<Longrightarrow>
   length (rotated (write_records dest ls d)) \<le> max_old_log_count dest"
  unfolding write_records_def
  by (induction ls arbitrary: d) (simp_all add: write_record_keeps_bound)

lemma honest_invoke: "honest e (invoke e c)"
  by (auto simp: honest_def faults_surface_def invoke_def split: option.split)

lemma honest_lib: "honest e (lib c)"
  by (auto simp: honest_def faults_surface_def lib_def)

lemma honest_return: "honest e (return_with c)"
  by (auto simp: honest_def faults_surface_def return_with_def)

lemma honest_cond: "honest e p \<Longrightarrow> honest e (cond b p)"
  by (simp add: honest_def cond_def)

lemma honest_new_app: "honest e new_app"
  by (auto simp: honest_def faults_surface_def new_app_def lib_def)

lemma honest_set_logger: "honest e (set_logger f)"
  by (auto simp: honest_def faults_surface_def set_logger_def)

lemma honest_set_ret: "honest e (set_ret r)"
  by (auto simp: honest_def faults_surface_def set_ret_def)

lemma honest_return_ret: "honest e return_ret"
  by (auto simp: honest_def faults_surface_def return_ret_def return_with_def)

lemma honest_append_args: "honest e (append_args e argv)"
  by (auto simp: honest_def faults_surface_def append_args_def split: sum.split)

lemma honest_seq:
  assumes "\<And>p. p \<in> set ps \<Longrightarrow> honest e p"
  shows "honest e (seq ps)"
  unfolding honest_def
proof (intro allI impI)
  fix s :: run
  assume "status s = Running" and fs: "faults_surface e s"
  show "faults_surface e (seq ps s)"
    by (rule seq_invariant[where I = "faults_surface e"])
       (use assms fs in \<open>auto simp: honest_def\<close>)
qed

lemma honest_load_ui: "honest e (load_ui e)"
  using honest_invoke[of e LoadUI] by (simp add: honest_def load_ui_def)

lemma honest_init_logger: "honest e (init_logger e)"
  unfolding init_logger_def
  by (rule honest_seq) (auto intro: honest_invoke honest_set_logger)

lemma honest_update_log_level: "honest e (update_log_level e)"
  unfolding update_log_level_def
  by (rule honest_seq) (auto intro: honest_invoke honest_set_logger honest_cond honest_lib)

lemmas honest_intros = honest_invoke honest_lib honest_return honest_cond honest_new_app
  honest_set_logger honest_set_ret honest_return_ret honest_append_args honest_load_ui
  honest_init_logger honest_update_log_level

lemma startup_honest: "p \<in> set (startup e argv) \<Longrightarrow> honest e p"
  unfolding startup_def by (auto intro!: honest_intros honest_seq)

lemma fault_reaches_handler:
  assumes "invoked c (main e argv)" "raises e c = Some m"
  shows "status (main_try e argv (initial_run e)) = Thrown m"
proof (cases "''--licenses'' \<in> set (tl argv)")
  case True
  from licenses_run[OF True, of e] assms(1) show ?thesis by (auto simp: invoked_def)
next
  case False
  from main_try_no_licenses[OF False, of e] obtain outs where
    mt: "main_try e argv (initial_run e) =
     seq (startup e argv)
       ((initial_run e)\<lparr>trace := map Stdout outs, startHidden := ''--hidden'' \<in> set (tl argv)\<rparr>)"
    by blast
  let ?s1 = "(initial_run e)\<lparr>trace := map Stdout outs, startHidden := ''--hidden'' \<in> set (tl argv)\<rparr>"
  have "faults_surface e (seq (startup e argv) ?s1)"
  proof (rule seq_invariant[where I = "faults_surface e"])
    show "faults_surface e ?s1" by (auto simp: faults_surface_def)
  next
    fix p s
    assume "p \<in> set (startup e argv)" "status s = Running" "faults_surface e s"
    with startup_honest[of p e argv] show "faults_surface e (p s)" by (simp add: honest_def)
  qed
  moreover have "Invoke c \<in> set (trace (main_try e argv (initial_run e)))"
    using assms(1) unfolding invoked_main by (simp add: invoked_def)
  ultimately show ?thesis using assms(2) unfolding mt faults_surface_def by blast
qed

lemma prefix_ending:
  assumes eq: "map Invoke (take k cs) = xs @ [Invoke c]" and d: "distinct cs"
    and n: "n < length cs" "cs ! n = c"
  shows "take k cs = take (Suc n) cs"
proof -
  let ?l = "length xs"
  from eq have "length (map Invoke (take k cs)) = ?l + 1" by simp
  then have len: "length (take k cs) = ?l + 1" by simp
  then have lk: "?l < k" "?l < length cs" by simp_all
  from eq have "map Invoke (take k cs) ! ?l = Invoke c" by simp
  with len have "Invoke (take k cs ! ?l) = Invoke c" by simp
  then have "take k cs ! ?l = c" by simp
  with lk have "cs ! ?l = c" by simp
  with n(2) have "cs ! ?l = cs ! n" by simp
  with d n(1) lk(2) have "?l = n" using nth_eq_iff_index_eq by blast
  with len have "min k (length cs) = Suc n" by simp
  then show ?thesis by (cases "k \<le> length cs") (simp_all add: min_def)
qed

lemma distinct_phase_calls: "distinct (phase_calls h)"
  by (simp add: phase_calls_def)

lemma phases_end_at:
  assumes tr: "trace (main e argv) = pre @ Invoke c # post"
    and post: "\<forall>c'. Invoke c' \<notin> set post"
    and n: "n < length (phase_calls (''--hidden'' \<in> set (tl argv)))"
      "phase_calls (''--hidden'' \<in> set (tl argv)) ! n = c"
  shows "filter is_phase (trace (main e argv))
       = map Invoke (take (Suc n) (phase_calls (''--hidden'' \<in> set (tl argv))))"
proof -
  let ?cs = "phase_calls (''--hidden'' \<in> set (tl argv))"
  from phases_in_order[of e argv] obtain k where
    k: "filter is_phase (trace (main e argv)) = map Invoke (take k ?cs)" by blast
  have "c \<in> set ?cs" using n nth_mem by blast
  then have ph: "is_phase (Invoke c)"
    by (auto simp: is_phase_simps phase_calls_def split: if_splits)
  have "filter is_phase post = []"
  proof (rule ccontr)
    assume "filter is_phase post \<noteq> []"
    then obtain ev where ev: "ev \<in> set post" "is_phase ev"
      by (auto simp: filter_empty_conv)
    then obtain c' where "ev = Invoke c'" by (cases ev) (auto simp: is_phase_def)
    with ev(1) post show False by blast
  qed
  with tr ph have "filter is_phase (trace (main e argv)) = filter is_phase pre @ [Invoke c]"
    by simp
  with k have "map Invoke (take k ?cs) = filter is_phase pre @ [Invoke c]" by simp
  from prefix_ending[OF this distinct_phase_calls n] k show ?thesis by simp
qed

lemma fault_is_last:
  assumes "invoked c (main e argv)" "raises e c = Some m"
  shows "\<exists>pre. trace (main e argv) = pre @ Invoke c # handler_events e argv m"
proof (cases "''--licenses'' \<in> set (tl argv)")
  case True
  from licenses_run[OF True, of e] assms(1) show ?thesis by (auto simp: invoked_def)
next
  case False
  from main_try_no_licenses[OF False, of e] obtain outs where
    mt: "main_try e argv (initial_run e) =
     seq (startup e argv)
       ((initial_run e)\<lparr>trace := map Stdout outs, startHidden := ''--hidden'' \<in> set (tl argv)\<rparr>)"
    by blast
  let ?s1 = "(initial_run e)\<lparr>trace := map Stdout outs, startHidden := ''--hidden'' \<in> set (tl argv)\<rparr>"
  have "faults_surface e (seq (startup e argv) ?s1)"
  proof (rule seq_invariant[where I = "faults_surface e"])
    show "faults_surface e ?s1" by (auto simp: faults_surface_def)
  next
    fix p s
    assume "p \<in> set (startup e argv)" "status s = Running" "faults_surface e s"
    with startup_honest[of p e argv] show "faults_surface e (p s)" by (simp add: honest_def)
  qed
  moreover have in_tr: "Invoke c \<in> set (trace (main_try e argv (initial_run e)))"
    using assms(1) unfolding invoked_main by (simp add: invoked_def)
  ultimately have th: "status (main_try e argv (initial_run e)) = Thrown m"
    and la: "last (trace (main_try e argv (initial_run e))) = Invoke c"
    using assms(2) unfolding mt faults_surface_def by blast+
  from in_tr have "trace (main_try e argv (initial_run e)) \<noteq> []" by auto
  with la have "trace (main_try e argv (initial_run e))
      = butlast (trace (main_try e argv (initial_run e))) @ [Invoke c]"
    by (metis append_butlast_last_id)
  then obtain pre where "trace (main_try e argv (initial_run e)) = pre @ [Invoke c]" by blast
  with main_thrown[OF th] show ?thesis by simp
qed

lemma handler_calls_nothing: "Invoke c' \<notin> set (handler_events e argv m)"
  by (simp add: handler_events_def)

lemma forwarded_run:
  assumes inv: "invoked EnsureUnique (main e argv)" and nr: "raises e EnsureUnique = None"
    and nu: "\<not> ensureUnique_result e"
  shows "\<exists>pre. trace (main e argv) = pre @ [Invoke EnsureUnique]"
proof (cases "''--licenses'' \<in> set (tl argv)")
  case True
  from licenses_run[OF True, of e] inv show ?thesis by (auto simp: invoked_def)
next
  case False
  from main_try_no_licenses[OF False, of e] obtain outs where
    mt: "main_try e argv (initial_run e) =
     seq (startup e argv)
       ((initial_run e)\<lparr>trace := map Stdout outs, startHidden := ''--hidden'' \<in> set (tl argv)\<rparr>)"
    by blast
  define Q where "Q r \<longleftrightarrow> (Invoke EnsureUnique \<in> set (trace r) \<longrightarrow>
      status r = Returned EXIT_SUCCESS \<and> last (trace r) = Invoke EnsureUnique)" for r :: run
  have "Q (main_try e argv (initial_run e))"
    unfolding mt startup_def using nr nu
    apply (simp add: steps initial_run_simps del: seq.simps(2) split: option.split sum.split)
    apply (simp add: Q_def image_iff)
    done
  moreover have in_tr: "Invoke EnsureUnique \<in> set (trace (main_try e argv (initial_run e)))"
    using inv unfolding invoked_main by (simp add: invoked_def)
  ultimately have t: "status (main_try e argv (initial_run e)) = Returned EXIT_SUCCESS"
    and la: "last (trace (main_try e argv (initial_run e))) = Invoke EnsureUnique"
    unfolding Q_def by simp_all
  from t have m: "main e argv = main_try e argv (initial_run e)"
    by (intro main_not_thrown) simp
  from in_tr have "trace (main_try e argv (initial_run e)) \<noteq> []" by auto
  with la have "trace (main_try e argv (initial_run e))
      = butlast (trace (main_try e argv (initial_run e))) @ [Invoke EnsureUnique]"
    by (metis append_butlast_last_id)
  then show ?thesis unfolding m by blast
qed

lemma running_until_call:
  assumes em: "emits_only (\<lambda>ev. ev \<noteq> Invoke c) (seq (take k ps))"
    and run: "status s = Running" and no: "Invoke c \<notin> set (trace s)"
    and inv: "Invoke c \<in> set (trace (seq ps s))"
  shows "status (seq (take k ps) s) = Running \<and> Invoke c \<notin> set (trace (seq (take k ps) s))"
proof -
  from em run obtain evs where
    evs: "trace (seq (take k ps) s) = trace s @ evs" "list_all (\<lambda>ev. ev \<noteq> Invoke c) evs"
    unfolding emits_only_def by blast
  with no have no2: "Invoke c \<notin> set (trace (seq (take k ps) s))" by (auto simp: list_all_iff)
  have "status (seq (take k ps) s) = Running"
  proof (rule ccontr)
    assume "status (seq (take k ps) s) \<noteq> Running"
    then have "seq (drop k ps) (seq (take k ps) s) = seq (take k ps) s" by (rule seq_not_running)
    with seq_take_drop[of ps s k] inv no2 show False by simp
  qed
  with no2 show ?thesis by simp
qed

lemma update_run:
  assumes inv: "invoked CheckForUpdates (main e argv)" and nr: "raises e CheckForUpdates = None"
    and up: "checkForUpdates_result e"
  shows "\<exists>pre. trace (main e argv) = pre @ [Invoke CheckForUpdates, Lib AppQuit]"
proof (cases "''--licenses'' \<in> set (tl argv)")
  case True
  from licenses_run[OF True, of e] inv show ?thesis by (auto simp: invoked_def)
next
  case False
  from main_try_no_licenses[OF False, of e] obtain outs where
    mt: "main_try e argv (initial_run e) =
     seq (startup e argv)
       ((initial_run e)\<lparr>trace := map Stdout outs, startHidden := ''--hidden'' \<in> set (tl argv)\<rparr>)"
    by blast
  define s1 where "s1 = (initial_run e)\<lparr>trace := map Stdout outs, startHidden := ''--hidden'' \<in> set (tl argv)\<rparr>"
  define s2 where "s2 = seq (take 14 (startup e argv)) s1"
  have em: "emits_only (\<lambda>ev. ev \<noteq> Invoke CheckForUpdates) (seq (take 14 (startup e argv)))"
    unfolding startup_def
    by (rule emits_only_seq) (auto intro!: emits_only_intros emits_only_seq)
  have run1: "status s1 = Running" and no1: "Invoke CheckForUpdates \<notin> set (trace s1)"
    by (auto simp: s1_def initial_run_simps)
  have inv': "Invoke CheckForUpdates \<in> set (trace (seq (startup e argv) s1))"
    using inv unfolding invoked_main mt s1_def by (simp add: invoked_def)
  from running_until_call[OF em run1 no1 inv'] have running: "status s2 = Running"
    by (simp add: s2_def)
  have fin: "main_try e argv (initial_run e) = seq (drop 14 (startup e argv)) s2"
    unfolding mt s2_def s1_def by (rule seq_take_drop)
  have res: "main_try e argv (initial_run e) =
      s2\<lparr>trace := trace s2 @ [Invoke CheckForUpdates, Lib AppQuit], status := Returned 0\<rparr>"
    unfolding fin startup_def using running nr up
    by (simp add: steps del: seq.simps(2))
  then have "main e argv = main_try e argv (initial_run e)"
    by (intro main_not_thrown) simp
  with res show ?thesis by simp
qed

lemma unload_after_event_loop:
  assumes inv: "invoked AppExec (main e argv)" and nr: "raises e AppExec = None"
  shows "invoked Unload (main e argv)"
proof (cases "''--licenses'' \<in> set (tl argv)")
  case True
  from licenses_run[OF True, of e] inv show ?thesis by (auto simp: invoked_def)
next
  case False
  from main_try_no_licenses[OF False, of e] obtain outs where
    mt: "main_try e argv (initial_run e) =
     seq (startup e argv)
       ((initial_run e)\<lparr>trace := map Stdout outs, startHidden := ''--hidden'' \<in> set (tl argv)\<rparr>)"
    by blast
  define s1 where "s1 = (initial_run e)\<lparr>trace := map Stdout outs, startHidden := ''--hidden'' \<in> set (tl argv)\<rparr>"
  define s2 where "s2 = seq (take 26 (startup e argv)) s1"
  have em: "emits_only (\<lambda>ev. ev \<noteq> Invoke AppExec) (seq (take 26 (startup e argv)))"
    unfolding startup_def
    by (rule emits_only_seq) (auto intro!: emits_only_intros emits_only_seq)
  have run1: "status s1 = Running" and no1: "Invoke AppExec \<notin> set (trace s1)"
    by (auto simp: s1_def initial_run_simps)
  have inv': "Invoke AppExec \<in> set (trace (seq (startup e argv) s1))"
    using inv unfolding invoked_main mt s1_def by (simp add: invoked_def)
  from running_until_call[OF em run1 no1 inv'] have running: "status s2 = Running"
    by (simp add: s2_def)
  have fin: "main_try e argv (initial_run e) = seq (drop 26 (startup e argv)) s2"
    unfolding mt s2_def s1_def by (rule seq_take_drop)
  have "Invoke Unload \<in> set (trace (main_try e argv (initial_run e)))"
    unfolding fin startup_def using running nr
    by (simp add: steps del: seq.simps(2) split: option.split)
  then show ?thesis unfolding invoked_main by (simp add: invoked_def)
qed

lemma licenses_no_phase:
  assumes "''--licenses'' \<in> set (tl argv)"
  shows "filter is_phase (trace (main e argv)) = []"
proof -
  from licenses_run[OF assms, of e]
  have "\<forall>ev \<in> set (trace (main e argv)). \<exists>str. ev = Stdout str" by blast
  then show ?thesis by (auto simp: filter_empty_conv is_phase_def)
qed

lemma last_in_take:
  assumes d: "distinct cs" and ne: "cs \<noteq> []" and l: "last cs \<in> set (take k cs)"
  shows "take k cs = cs"
proof (rule ccontr)
  assume "take k cs \<noteq> cs"
  then have k: "k < length cs" by (meson not_le_imp_less take_all)
  from l obtain i where i: "i < length (take k cs)" "take k cs ! i = last cs"
    by (auto simp: in_set_conv_nth)
  with k have "i < k" "cs ! i = cs ! (length cs - 1)" using ne by (simp_all add: last_conv_nth)
  with d k ne have "i = length cs - 1" by (simp add: nth_eq_iff_index_eq)
  with \<open>i < k\<close> k show False by simp
qed

lemma all_phases:
  assumes nl: "''--licenses'' \<notin> set (tl argv)" and nr: "\<forall>c. raises e c = None"
    and un: "ensureUnique_result e" and nu: "\<not> checkForUpdates_result e"
    and ar: "appendCommandLineArguments (platform.truncate e) (utf8_roundtrip e) argv = Inr args"
  shows "filter is_phase (trace (main e argv))
       = map Invoke (phase_calls (''--hidden'' \<in> set (tl argv)))"
proof -
  let ?cs = "phase_calls (''--hidden'' \<in> set (tl argv))"
  from phases_in_order[of e argv] obtain k where
    k: "filter is_phase (trace (main e argv)) = map Invoke (take k ?cs)" by blast
  from full_startup[OF nl nr un nu ar] have "Invoke Unload \<in> set (trace (main e argv))"
    by (simp add: invoked_def)
  then have "Invoke Unload \<in> set (filter is_phase (trace (main e argv)))"
    by (simp add: is_phase_simps)
  with k have "Unload \<in> set (take k ?cs)" by auto
  moreover have "last ?cs = Unload" "?cs \<noteq> []" by (simp_all add: phase_calls_def)
  ultimately have "take k ?cs = ?cs" using last_in_take[OF distinct_phase_calls] by metis
  with k show ?thesis by simp
qed

subsection \<open>The order of the phases\<close>

text \<open>
  Claim C2, as amended. In every run the phases that are reached come in the order crash
  reporter, single-instance check, logger, update check, \<^verbatim>\<open>ComponentManager::initialize()\<close>,
  \<^verbatim>\<open>loadUI()\<close> (left out when \<^verbatim>\<open>--hidden\<close> was given), event loop, \<^verbatim>\<open>unload()\<close>; each is called
  at most once and none before all the phases ahead of it have been called: the phases of
  a run are an initial segment of that list. The crash reporter is installed before the
  logger and every later phase, but it is not the first action: wherever it is installed,
  \<^verbatim>\<open>preinitQt()\<close> has been called and the \<^verbatim>\<open>QGuiApplication\<close> has been built before. A run
  with \<^verbatim>\<open>--licenses\<close> reaches no phase. A run in which the single-instance check answers
  that the process is not the only instance ends with that check, after the crash reporter
  and nothing else; a run in which the update check answers that an update was applied
  ends with that check, after the first three phases. A call that raises is the last
  call of the run: only the handler follows. When the event loop returns, \<^verbatim>\<open>unload()\<close> is
  called. And a run that nothing cuts short (no \<^verbatim>\<open>--licenses\<close>, no call raises, the only
  instance, no update, an argument vector that fits its buffers) goes through all the
  phases, in this order.
\<close>

theorem startup_phases_in_order:
  "(\<exists>k. filter is_phase (trace (main e argv))
         = map Invoke (take k (phase_calls (''--hidden'' \<in> set (tl argv)))))
   \<and> (invoked SetupCrashDumper (main e argv) \<longrightarrow>
        (\<exists>pre post args. trace (main e argv) = pre @ Invoke SetupCrashDumper # post
           \<and> Invoke PreinitQt \<in> set pre \<and> Lib (NewGuiApplication args) \<in> set pre))
   \<and> (''--licenses'' \<in> set (tl argv) \<longrightarrow> filter is_phase (trace (main e argv)) = [])
   \<and> (invoked EnsureUnique (main e argv) \<and> raises e EnsureUnique = None
        \<and> \<not> ensureUnique_result e
      \<longrightarrow> filter is_phase (trace (main e argv))
          = [Invoke SetupCrashDumper, Invoke EnsureUnique])
   \<and> (invoked CheckForUpdates (main e argv) \<and> raises e CheckForUpdates = None
        \<and> checkForUpdates_result e
      \<longrightarrow> filter is_phase (trace (main e argv))
          = [Invoke SetupCrashDumper, Invoke EnsureUnique, Invoke InitLogger,
             Invoke CheckForUpdates])
   \<and> (invoked c (main e argv) \<and> raises e c = Some m
      \<longrightarrow> (\<exists>pre post. trace (main e argv) = pre @ Invoke c # post
             \<and> (\<forall>c'. Invoke c' \<notin> set post)))
   \<and> (invoked AppExec (main e argv) \<and> raises e AppExec = None
      \<longrightarrow> invoked Unload (main e argv))
   \<and> (''--licenses'' \<notin> set (tl argv) \<and> (\<forall>c. raises e c = None) \<and> ensureUnique_result e
        \<and> \<not> checkForUpdates_result e
        \<and> (\<exists>args. appendCommandLineArguments (platform.truncate e) (utf8_roundtrip e) argv
                     = Inr args)
      \<longrightarrow> filter is_phase (trace (main e argv))
          = map Invoke (phase_calls (''--hidden'' \<in> set (tl argv))))"
proof -
  let ?cs = "phase_calls (''--hidden'' \<in> set (tl argv))"
  have A: "\<exists>k. filter is_phase (trace (main e argv)) = map Invoke (take k ?cs)"
    by (rule phases_in_order)
  have B: "invoked SetupCrashDumper (main e argv) \<longrightarrow>
        (\<exists>pre post args. trace (main e argv) = pre @ Invoke SetupCrashDumper # post
           \<and> Invoke PreinitQt \<in> set pre \<and> Lib (NewGuiApplication args) \<in> set pre)"
    using crash_dumper_after_preinit[of e argv] by blast
  have C: "''--licenses'' \<in> set (tl argv) \<longrightarrow> filter is_phase (trace (main e argv)) = []"
    using licenses_no_phase[of argv e] by blast
  have D: "invoked EnsureUnique (main e argv) \<and> raises e EnsureUnique = None
        \<and> \<not> ensureUnique_result e
      \<longrightarrow> filter is_phase (trace (main e argv))
          = [Invoke SetupCrashDumper, Invoke EnsureUnique]"
  proof
    assume a: "invoked EnsureUnique (main e argv) \<and> raises e EnsureUnique = None
        \<and> \<not> ensureUnique_result e"
    then obtain pre where "trace (main e argv) = pre @ Invoke EnsureUnique # []"
      using forwarded_run[of e argv] by auto
    from phases_end_at[OF this, of 1]
    show "filter is_phase (trace (main e argv)) = [Invoke SetupCrashDumper, Invoke EnsureUnique]"
      by (simp add: phase_calls_def)
  qed
  have E: "invoked CheckForUpdates (main e argv) \<and> raises e CheckForUpdates = None
        \<and> checkForUpdates_result e
      \<longrightarrow> filter is_phase (trace (main e argv))
          = [Invoke SetupCrashDumper, Invoke EnsureUnique, Invoke InitLogger,
             Invoke CheckForUpdates]"
  proof
    assume a: "invoked CheckForUpdates (main e argv) \<and> raises e CheckForUpdates = None
        \<and> checkForUpdates_result e"
    then obtain pre where "trace (main e argv) = pre @ Invoke CheckForUpdates # [Lib AppQuit]"
      using update_run[of e argv] by auto
    from phases_end_at[OF this, of 3]
    show "filter is_phase (trace (main e argv))
          = [Invoke SetupCrashDumper, Invoke EnsureUnique, Invoke InitLogger,
             Invoke CheckForUpdates]"
      by (simp add: phase_calls_def numeral_3_eq_3)
  qed
  have F: "invoked c (main e argv) \<and> raises e c = Some m
      \<longrightarrow> (\<exists>pre post. trace (main e argv) = pre @ Invoke c # post
             \<and> (\<forall>c'. Invoke c' \<notin> set post))"
    using fault_is_last[of c e argv m] handler_calls_nothing[of _ e argv m] by blast
  have H: "invoked AppExec (main e argv) \<and> raises e AppExec = None
      \<longrightarrow> invoked Unload (main e argv)"
    using unload_after_event_loop[of e argv] by blast
  have G: "''--licenses'' \<notin> set (tl argv) \<and> (\<forall>c. raises e c = None) \<and> ensureUnique_result e
        \<and> \<not> checkForUpdates_result e
        \<and> (\<exists>args. appendCommandLineArguments (platform.truncate e) (utf8_roundtrip e) argv
                     = Inr args)
      \<longrightarrow> filter is_phase (trace (main e argv)) = map Invoke ?cs"
    using all_phases[of argv e] by blast
  from A B C D E F H G show ?thesis by (intro conjI)
qed

theorem startup_phases_in_order_witness:
  "invoked SetupCrashDumper (main quiet_env [''pmp''])
   \<and> (\<exists>pre post args. trace (main quiet_env [''pmp'']) = pre @ Invoke SetupCrashDumper # post
           \<and> Invoke PreinitQt \<in> set pre \<and> Lib (NewGuiApplication args) \<in> set pre)
   \<and> ''--licenses'' \<in> set (tl [''pmp'', ''--licenses''])
   \<and> filter is_phase (trace (main quiet_env [''pmp'', ''--licenses''])) = []
   \<and> invoked EnsureUnique (main (quiet_env\<lparr>ensureUnique_result := False\<rparr>) [''pmp''])
   \<and> raises (quiet_env\<lparr>ensureUnique_result := False\<rparr>) EnsureUnique = None
   \<and> \<not> ensureUnique_result (quiet_env\<lparr>ensureUnique_result := False\<rparr>)
   \<and> filter is_phase (trace (main (quiet_env\<lparr>ensureUnique_result := False\<rparr>) [''pmp'']))
       = [Invoke SetupCrashDumper, Invoke EnsureUnique]
   \<and> invoked CheckForUpdates (main (quiet_env\<lparr>checkForUpdates_result := True\<rparr>) [''pmp''])
   \<and> raises (quiet_env\<lparr>checkForUpdates_result := True\<rparr>) CheckForUpdates = None
   \<and> checkForUpdates_result (quiet_env\<lparr>checkForUpdates_result := True\<rparr>)
   \<and> filter is_phase (trace (main (quiet_env\<lparr>checkForUpdates_result := True\<rparr>) [''pmp'']))
       = [Invoke SetupCrashDumper, Invoke EnsureUnique, Invoke InitLogger,
          Invoke CheckForUpdates]
   \<and> invoked ComponentInitialize
       (main (quiet_env\<lparr>raises := (\<lambda>c. if c = ComponentInitialize then Some ''no settings'' else None)\<rparr>)
          [''pmp''])
   \<and> raises (quiet_env\<lparr>raises := (\<lambda>c. if c = ComponentInitialize then Some ''no settings'' else None)\<rparr>)
        ComponentInitialize = Some ''no settings''
   \<and> (\<exists>pre post.
        trace (main (quiet_env\<lparr>raises := (\<lambda>c. if c = ComponentInitialize then Some ''no settings'' else None)\<rparr>)
                 [''pmp''])
          = pre @ Invoke ComponentInitialize # post
        \<and> (\<forall>c'. Invoke c' \<notin> set post))
   \<and> invoked AppExec (main quiet_env [''pmp''])
   \<and> raises quiet_env AppExec = None
   \<and> invoked Unload (main quiet_env [''pmp''])
   \<and> ''--licenses'' \<notin> set (tl [''pmp''])
   \<and> (\<forall>c. raises quiet_env c = None)
   \<and> ensureUnique_result quiet_env
   \<and> \<not> checkForUpdates_result quiet_env
   \<and> (\<exists>args. appendCommandLineArguments (platform.truncate quiet_env) (utf8_roundtrip quiet_env)
                [''pmp''] = Inr args)
   \<and> filter is_phase (trace (main quiet_env [''pmp'']))
       = map Invoke (phase_calls (''--hidden'' \<in> set (tl [''pmp''])))"
proof -
  let ?a = "[''pmp'']"
  let ?eD = "quiet_env\<lparr>ensureUnique_result := False\<rparr>"
  let ?eE = "quiet_env\<lparr>checkForUpdates_result := True\<rparr>"
  let ?eF = "quiet_env\<lparr>raises := (\<lambda>c. if c = ComponentInitialize then Some ''no settings'' else None)\<rparr>"
  note T = startup_phases_in_order[where e = quiet_env and argv = ?a]
  note TL = startup_phases_in_order[where e = quiet_env and argv = "[''pmp'', ''--licenses'']"]
  note TD = startup_phases_in_order[where e = ?eD and argv = ?a]
  note TE = startup_phases_in_order[where e = ?eE and argv = ?a]
  note TF = startup_phases_in_order[where e = ?eF and argv = ?a and c = ComponentInitialize
      and m = "''no settings''"]
  have b: "invoked SetupCrashDumper (main quiet_env ?a)"
    unfolding invoked_main by (simp add: invoked_def run_simps del: seq.simps(2))
  note b' = mp[OF T[THEN conjunct2, THEN conjunct1] b]
  have c: "''--licenses'' \<in> set (tl [''pmp'', ''--licenses''])" by simp
  note c' = mp[OF TL[THEN conjunct2, THEN conjunct2, THEN conjunct1] c]
  have d1: "invoked EnsureUnique (main ?eD ?a)"
    unfolding invoked_main by (simp add: invoked_def run_simps del: seq.simps(2))
  have d2: "raises ?eD EnsureUnique = None" by (simp add: quiet_env_simps)
  have d3: "\<not> ensureUnique_result ?eD" by simp
  note d' = mp[OF TD[THEN conjunct2, THEN conjunct2, THEN conjunct2, THEN conjunct1]
      conjI[OF d1 conjI[OF d2 d3]]]
  have e1: "invoked CheckForUpdates (main ?eE ?a)"
    unfolding invoked_main by (simp add: invoked_def run_simps del: seq.simps(2))
  have e2: "raises ?eE CheckForUpdates = None" by (simp add: quiet_env_simps)
  have e3: "checkForUpdates_result ?eE" by simp
  note e' = mp[OF TE[THEN conjunct2, THEN conjunct2, THEN conjunct2, THEN conjunct2,
        THEN conjunct1]
      conjI[OF e1 conjI[OF e2 e3]]]
  have f1: "invoked ComponentInitialize (main ?eF ?a)"
    unfolding invoked_main by (simp add: invoked_def run_simps del: seq.simps(2))
  have f2: "raises ?eF ComponentInitialize = Some ''no settings''" by simp
  note f' = mp[OF TF[THEN conjunct2, THEN conjunct2, THEN conjunct2, THEN conjunct2,
        THEN conjunct2, THEN conjunct1]
      conjI[OF f1 f2]]
  have h1: "invoked AppExec (main quiet_env ?a)"
    unfolding invoked_main by (simp add: invoked_def run_simps del: seq.simps(2))
  have h2: "raises quiet_env AppExec = None" by (simp add: quiet_env_simps)
  note h' = mp[OF T[THEN conjunct2, THEN conjunct2, THEN conjunct2, THEN conjunct2,
        THEN conjunct2, THEN conjunct2, THEN conjunct1]
      conjI[OF h1 h2]]
  have g1: "''--licenses'' \<notin> set (tl ?a)" by simp
  have g2: "\<forall>c. raises quiet_env c = None" and g3: "ensureUnique_result quiet_env"
    and g4: "\<not> checkForUpdates_result quiet_env"
    by (simp_all add: quiet_env_simps)
  have g5: "\<exists>args. appendCommandLineArguments (platform.truncate quiet_env) (utf8_roundtrip quiet_env)
               ?a = Inr args"
    by (simp add: appendCommandLineArguments_def quiet_env_simps)
  note g' = mp[OF T[THEN conjunct2, THEN conjunct2, THEN conjunct2, THEN conjunct2,
        THEN conjunct2, THEN conjunct2, THEN conjunct2]
      conjI[OF g1 conjI[OF g2 conjI[OF g3 conjI[OF g4 g5]]]]]
  show ?thesis
    by (intro conjI) (rule b b' c c' d1 d2 d3 d' e1 e2 e3 e' f1 f2 f' h1 h2 h' g1 g2 g3 g4 g5 g')+
qed

text \<open>
  The claim as it was written makes the crash reporter the very first action of every run.
  In a run without flags, three calls come before it.
\<close>

theorem crash_dumper_is_not_first_counterexample:
  "take 4 (trace (main quiet_env [''pmp''])) =
     [Invoke PreinitQt,
      Lib (NewGuiApplication [''pmp'', ''--enable-viewport'', ''--enable-viewport-meta'']),
      Lib (SetWindowIcon '':/images/icon.png''),
      Invoke SetupCrashDumper]"
proof -
  have "status (main_try quiet_env [''pmp''] (initial_run quiet_env)) = Returned 0"
    by (simp add: run_simps del: seq.simps(2))
  then have "main quiet_env [''pmp''] = main_try quiet_env [''pmp''] (initial_run quiet_env)"
    by (intro main_not_thrown) simp
  then show ?thesis
    by (simp add: run_simps copy_args.simps del: seq.simps(2))
qed

subsection \<open>The flag --licenses\<close>

text \<open>
  Claim C7. When \<^verbatim>\<open>--licenses\<close> stands anywhere behind the program name, \<^verbatim>\<open>main\<close> prints
  the license text and returns 0 before any subsystem starts: every event of the run is
  an output on stdout (an earlier \<^verbatim>\<open>--hidden\<close> prints its line), no procedure of the
  application or of Qt is called, and the logger is left as it was.
\<close>

theorem licenses_flag_exits_before_startup:
  assumes "''--licenses'' \<in> set (tl argv)"
  shows "exit_code (main e argv) = Some 0
       \<and> Stdout (licenses_txt e @ newline) \<in> set (trace (main e argv))
       \<and> (\<forall>ev \<in> set (trace (main e argv)). \<exists>str. ev = Stdout str)
       \<and> the_logger (main e argv) = logger0 e"
  using licenses_run[OF assms] .

theorem licenses_flag_exits_before_startup_witness:
  "''--licenses'' \<in> set (tl [''pmp'', ''--fullscreen'', ''--licenses''])
   \<and> exit_code (main quiet_env [''pmp'', ''--fullscreen'', ''--licenses'']) = Some 0
   \<and> Stdout (licenses_txt quiet_env @ newline)
        \<in> set (trace (main quiet_env [''pmp'', ''--fullscreen'', ''--licenses'']))"
proof -
  have h: "''--licenses'' \<in> set (tl [''pmp'', ''--fullscreen'', ''--licenses''])" by simp
  from licenses_flag_exits_before_startup[OF h, of quiet_env]
  have "exit_code (main quiet_env [''pmp'', ''--fullscreen'', ''--licenses'']) = Some 0
   \<and> Stdout (licenses_txt quiet_env @ newline)
        \<in> set (trace (main quiet_env [''pmp'', ''--fullscreen'', ''--licenses'']))"
    by blast
  with h show ?thesis by (rule conjI)
qed

subsection \<open>A second instance\<close>

text \<open>
  Claim C4. In a run in which \<^verbatim>\<open>UniqueApplication::ensureUnique()\<close> is called and returns
  false, \<^verbatim>\<open>main\<close> returns \<^verbatim>\<open>EXIT_SUCCESS\<close>, which is 0, at once: the call is the last
  event of the run, and neither \<^verbatim>\<open>initLogger\<close>, nor the update check, nor
  \<^verbatim>\<open>ComponentManager::initialize()\<close>, nor \<^verbatim>\<open>loadUI()\<close> is called.
\<close>

theorem forwarded_instance_exits_at_once:
  assumes inv: "invoked EnsureUnique (main e argv)" and nr: "raises e EnsureUnique = None"
    and nu: "\<not> ensureUnique_result e"
  shows "exit_code (main e argv) = Some EXIT_SUCCESS \<and> EXIT_SUCCESS = 0
       \<and> last (trace (main e argv)) = Invoke EnsureUnique
       \<and> \<not> invoked InitLogger (main e argv) \<and> \<not> invoked CheckForUpdates (main e argv)
       \<and> \<not> invoked ComponentInitialize (main e argv) \<and> \<not> invoked LoadUI (main e argv)"
proof (cases "''--licenses'' \<in> set (tl argv)")
  case True
  from licenses_run[OF True, of e] inv show ?thesis by (auto simp: invoked_def)
next
  case False
  from main_try_no_licenses[OF False, of e] obtain outs where
    mt: "main_try e argv (initial_run e) =
     seq (startup e argv)
       ((initial_run e)\<lparr>trace := map Stdout outs, startHidden := ''--hidden'' \<in> set (tl argv)\<rparr>)"
    by blast
  define Q where "Q r \<longleftrightarrow> (Invoke EnsureUnique \<in> set (trace r) \<longrightarrow>
      status r = Returned EXIT_SUCCESS \<and> last (trace r) = Invoke EnsureUnique
      \<and> Invoke InitLogger \<notin> set (trace r) \<and> Invoke CheckForUpdates \<notin> set (trace r)
      \<and> Invoke ComponentInitialize \<notin> set (trace r) \<and> Invoke LoadUI \<notin> set (trace r))" for r :: run
  have "Q (main_try e argv (initial_run e))"
    unfolding mt startup_def using nr nu
    apply (simp add: steps initial_run_simps del: seq.simps(2) split: option.split sum.split)
    apply (simp add: Q_def image_iff)
    done
  with inv have t: "status (main_try e argv (initial_run e)) = Returned EXIT_SUCCESS"
    and rest: "last (trace (main_try e argv (initial_run e))) = Invoke EnsureUnique
      \<and> Invoke InitLogger \<notin> set (trace (main_try e argv (initial_run e)))
      \<and> Invoke CheckForUpdates \<notin> set (trace (main_try e argv (initial_run e)))
      \<and> Invoke ComponentInitialize \<notin> set (trace (main_try e argv (initial_run e)))
      \<and> Invoke LoadUI \<notin> set (trace (main_try e argv (initial_run e)))"
    unfolding Q_def invoked_main by (simp_all add: invoked_def)
  from t have "main e argv = main_try e argv (initial_run e)"
    by (intro main_not_thrown) simp
  with t rest show ?thesis by (simp add: exit_code_def invoked_def EXIT_SUCCESS_def)
qed

theorem forwarded_instance_exits_at_once_witness:
  "invoked EnsureUnique (main (quiet_env\<lparr>ensureUnique_result := False\<rparr>) [''pmp'', ''movie.mkv''])
   \<and> raises (quiet_env\<lparr>ensureUnique_result := False\<rparr>) EnsureUnique = None
   \<and> \<not> ensureUnique_result (quiet_env\<lparr>ensureUnique_result := False\<rparr>)
   \<and> exit_code (main (quiet_env\<lparr>ensureUnique_result := False\<rparr>) [''pmp'', ''movie.mkv'']) = Some 0
   \<and> \<not> invoked InitLogger (main (quiet_env\<lparr>ensureUnique_result := False\<rparr>) [''pmp'', ''movie.mkv''])
   \<and> \<not> invoked ComponentInitialize (main (quiet_env\<lparr>ensureUnique_result := False\<rparr>) [''pmp'', ''movie.mkv''])"
proof -
  let ?e = "quiet_env\<lparr>ensureUnique_result := False\<rparr>"
  let ?a = "[''pmp'', ''movie.mkv'']"
  have h1: "invoked EnsureUnique (main ?e ?a)"
    unfolding invoked_main
    by (simp add: invoked_def run_simps del: seq.simps(2))
  have h2: "raises ?e EnsureUnique = None" by (simp add: quiet_env_simps)
  have h3: "\<not> ensureUnique_result ?e" by simp
  from forwarded_instance_exits_at_once[OF h1 h2 h3]
  have "exit_code (main ?e ?a) = Some 0 \<and> \<not> invoked InitLogger (main ?e ?a)
      \<and> \<not> invoked ComponentInitialize (main ?e ?a)"
    by (simp add: EXIT_SUCCESS_def)
  with h1 h2 h3 show ?thesis by blast
qed

subsection \<open>The update gate\<close>

text \<open>
  Claim C3. In a run in which \<^verbatim>\<open>UpdateManager::CheckForUpdates()\<close> is called and returns
  true, \<^verbatim>\<open>main\<close> returns 0, and neither \<^verbatim>\<open>ComponentManager::initialize()\<close> nor \<^verbatim>\<open>loadUI()\<close>
  is called in that run.
\<close>

theorem update_applied_exits_before_components:
  assumes inv: "invoked CheckForUpdates (main e argv)" and nr: "raises e CheckForUpdates = None"
    and up: "checkForUpdates_result e"
  shows "exit_code (main e argv) = Some 0
       \<and> \<not> invoked ComponentInitialize (main e argv) \<and> \<not> invoked LoadUI (main e argv)"
proof (cases "''--licenses'' \<in> set (tl argv)")
  case True
  from licenses_run[OF True, of e] inv show ?thesis by (auto simp: invoked_def)
next
  case False
  from main_try_no_licenses[OF False, of e] obtain outs where
    mt: "main_try e argv (initial_run e) =
     seq (startup e argv)
       ((initial_run e)\<lparr>trace := map Stdout outs, startHidden := ''--hidden'' \<in> set (tl argv)\<rparr>)"
    by blast
  define s1 where "s1 = (initial_run e)\<lparr>trace := map Stdout outs, startHidden := ''--hidden'' \<in> set (tl argv)\<rparr>"
  define s2 where "s2 = seq (take 14 (startup e argv)) s1"
  let ?E = "\<lambda>ev. ev \<noteq> Invoke CheckForUpdates \<and> ev \<noteq> Invoke ComponentInitialize \<and> ev \<noteq> Invoke LoadUI"
  have run1: "status s1 = Running" by (simp add: s1_def initial_run_simps)
  from startup_upto_update_check[of e argv] run1 obtain evs where
    evs: "trace s2 = trace s1 @ evs" "list_all ?E evs"
    unfolding emits_only_def s2_def by blast
  then have no: "Invoke CheckForUpdates \<notin> set (trace s2)" "Invoke ComponentInitialize \<notin> set (trace s2)"
      "Invoke LoadUI \<notin> set (trace s2)"
    by (auto simp: s1_def list_all_iff)
  have fin: "main_try e argv (initial_run e) = seq (drop 14 (startup e argv)) s2"
    unfolding mt s2_def s1_def by (rule seq_take_drop)
  have inv': "Invoke CheckForUpdates \<in> set (trace (main_try e argv (initial_run e)))"
    using inv unfolding invoked_main by (simp add: invoked_def)
  have running: "status s2 = Running"
  proof (rule ccontr)
    assume "status s2 \<noteq> Running"
    then have "main_try e argv (initial_run e) = s2" unfolding fin by (rule seq_not_running)
    with inv' no show False by simp
  qed
  have res: "main_try e argv (initial_run e) =
      s2\<lparr>trace := trace s2 @ [Invoke CheckForUpdates, Lib AppQuit], status := Returned 0\<rparr>"
    unfolding fin startup_def using running nr up
    by (simp add: steps del: seq.simps(2))
  then have "main e argv = main_try e argv (initial_run e)"
    by (intro main_not_thrown) simp
  with res no show ?thesis by (simp add: exit_code_def invoked_def)
qed

theorem update_applied_exits_before_components_witness:
  "invoked CheckForUpdates (main (quiet_env\<lparr>checkForUpdates_result := True\<rparr>) [''pmp''])
   \<and> raises (quiet_env\<lparr>checkForUpdates_result := True\<rparr>) CheckForUpdates = None
   \<and> checkForUpdates_result (quiet_env\<lparr>checkForUpdates_result := True\<rparr>)
   \<and> exit_code (main (quiet_env\<lparr>checkForUpdates_result := True\<rparr>) [''pmp'']) = Some 0
   \<and> \<not> invoked ComponentInitialize (main (quiet_env\<lparr>checkForUpdates_result := True\<rparr>) [''pmp''])
   \<and> \<not> invoked LoadUI (main (quiet_env\<lparr>checkForUpdates_result := True\<rparr>) [''pmp''])"
proof -
  let ?e = "quiet_env\<lparr>checkForUpdates_result := True\<rparr>"
  let ?a = "[''pmp'']"
  have h1: "invoked CheckForUpdates (main ?e ?a)"
    unfolding invoked_main
    by (simp add: invoked_def run_simps del: seq.simps(2))
  have h2: "raises ?e CheckForUpdates = None" by (simp add: quiet_env_simps)
  have h3: "checkForUpdates_result ?e" by simp
  from update_applied_exits_before_components[OF h1 h2 h3] h1 h2 h3 show ?thesis by blast
qed

subsection \<open>A fault at the outermost boundary\<close>

text \<open>
  Claim C5. A \<^verbatim>\<open>FatalException\<close> raised by any call that \<^verbatim>\<open>main\<close> makes inside its block
  of \<^verbatim>\<open>try\<close> leaves that block: no statement of the block catches it. And when a
  \<^verbatim>\<open>FatalException\<close> with message \<open>m\<close> leaves the block, the handler of \<^verbatim>\<open>main\<close> takes it:
  the run goes on with a line at fatal level that holds \<open>m\<close>, a second
  \<^verbatim>\<open>QGuiApplication\<close>, the view \<^verbatim>\<open>errormessage.qml\<close> with \<open>m\<close> in its \<^verbatim>\<open>errorText\<close>, the
  event loop of that view, and then the exit code 1.
\<close>

theorem fatal_exception_is_caught_and_shown:
  "(invoked c (main e argv) \<and> raises e c = Some m
      \<longrightarrow> status (main_try e argv (initial_run e)) = Thrown m)
   \<and> (status (main_try e argv (initial_run e)) = Thrown m
      \<longrightarrow> exit_code (main e argv) = Some 1
        \<and> trace (main e argv) = trace (main_try e argv (initial_run e)) @
           [Lib (QLog FatalLevel (''Unhandled FatalException: '' @ m)),
            Lib (NewGuiApplication argv),
            Lib NewQmlApplicationEngine,
            Lib (SetContextProperty ''errorTitle'' (tr e ''A critical error occurred.'')),
            Lib (SetContextProperty ''errorText''
                   (m @ ''<br>'' @ tr e ''Please visit Plex support forums for support.'')),
            Lib (LoadQml ''qrc:/ui/errormessage.qml''),
            Lib ErrorViewExec])"
proof (intro conjI impI)
  assume "invoked c (main e argv) \<and> raises e c = Some m"
  then show "status (main_try e argv (initial_run e)) = Thrown m"
    using fault_reaches_handler by blast
next
  assume t: "status (main_try e argv (initial_run e)) = Thrown m"
  from main_thrown[OF t] show "exit_code (main e argv) = Some 1"
    by (simp add: exit_code_def)
  from main_thrown[OF t] show "trace (main e argv) = trace (main_try e argv (initial_run e)) @
           [Lib (QLog FatalLevel (''Unhandled FatalException: '' @ m)),
            Lib (NewGuiApplication argv),
            Lib NewQmlApplicationEngine,
            Lib (SetContextProperty ''errorTitle'' (tr e ''A critical error occurred.'')),
            Lib (SetContextProperty ''errorText''
                   (m @ ''<br>'' @ tr e ''Please visit Plex support forums for support.'')),
            Lib (LoadQml ''qrc:/ui/errormessage.qml''),
            Lib ErrorViewExec]"
    by (simp add: handler_events_def)
qed

theorem fatal_exception_is_caught_and_shown_witness:
  "invoked ComponentInitialize
     (main (quiet_env\<lparr>raises := (\<lambda>c. if c = ComponentInitialize then Some ''no settings'' else None)\<rparr>)
           [''pmp''])
   \<and> raises (quiet_env\<lparr>raises := (\<lambda>c. if c = ComponentInitialize then Some ''no settings'' else None)\<rparr>)
        ComponentInitialize = Some ''no settings''
   \<and> status (main_try (quiet_env\<lparr>raises := (\<lambda>c. if c = ComponentInitialize then Some ''no settings'' else None)\<rparr>)
            [''pmp'']
            (initial_run (quiet_env\<lparr>raises := (\<lambda>c. if c = ComponentInitialize then Some ''no settings'' else None)\<rparr>)))
     = Thrown ''no settings''
   \<and> exit_code (main (quiet_env\<lparr>raises := (\<lambda>c. if c = ComponentInitialize then Some ''no settings'' else None)\<rparr>)
                  [''pmp'']) = Some 1"
proof -
  let ?e = "quiet_env\<lparr>raises := (\<lambda>c. if c = ComponentInitialize then Some ''no settings'' else None)\<rparr>"
  have h1: "invoked ComponentInitialize (main ?e [''pmp''])"
    unfolding invoked_main
    by (simp add: invoked_def run_simps del: seq.simps(2))
  have h2: "raises ?e ComponentInitialize = Some ''no settings''" by simp
  from fatal_exception_is_caught_and_shown[of ComponentInitialize ?e "[''pmp'']" "''no settings''"] h1 h2
  have t: "status (main_try ?e [''pmp''] (initial_run ?e)) = Thrown ''no settings''" by blast
  from fatal_exception_is_caught_and_shown[of ComponentInitialize ?e "[''pmp'']" "''no settings''"] t
  have "exit_code (main ?e [''pmp'']) = Some 1" by blast
  with h1 h2 t show ?thesis by blast
qed

subsection \<open>The flag --hidden\<close>

text \<open>
  Claim C8, as amended. When \<^verbatim>\<open>--hidden\<close> stands anywhere behind the program name,
  \<^verbatim>\<open>loadUI()\<close> is not called in that run. When moreover no \<^verbatim>\<open>--licenses\<close> is given, no call
  raises, the process is the only instance, no update is applied and the argument vector
  fits its buffers, the run goes through all the other phases and returns what the event
  loop returned.
\<close>

theorem hidden_flag_skips_only_the_ui:
  assumes "''--hidden'' \<in> set (tl argv)"
  shows "\<not> invoked LoadUI (main e argv)
       \<and> (''--licenses'' \<notin> set (tl argv) \<and> (\<forall>c. raises e c = None) \<and> ensureUnique_result e
            \<and> \<not> checkForUpdates_result e
            \<and> (\<exists>args. appendCommandLineArguments (platform.truncate e) (utf8_roundtrip e) argv = Inr args)
          \<longrightarrow> invoked SetupCrashDumper (main e argv) \<and> invoked EnsureUnique (main e argv)
            \<and> invoked InitLogger (main e argv) \<and> invoked CheckForUpdates (main e argv)
            \<and> invoked ComponentInitialize (main e argv) \<and> invoked AppExec (main e argv)
            \<and> invoked Unload (main e argv)
            \<and> exit_code (main e argv) = Some (exec_result e))"
  using hidden_never_loads_ui[OF assms, of e] full_startup[of argv e] by blast

theorem hidden_flag_skips_only_the_ui_witness:
  "''--hidden'' \<in> set (tl [''pmp'', ''--hidden''])
   \<and> ''--licenses'' \<notin> set (tl [''pmp'', ''--hidden''])
   \<and> (\<forall>c. raises quiet_env c = None) \<and> ensureUnique_result quiet_env
   \<and> \<not> checkForUpdates_result quiet_env
   \<and> (\<exists>args. appendCommandLineArguments (platform.truncate quiet_env) (utf8_roundtrip quiet_env)
               [''pmp'', ''--hidden''] = Inr args)
   \<and> \<not> invoked LoadUI (main quiet_env [''pmp'', ''--hidden''])
   \<and> invoked ComponentInitialize (main quiet_env [''pmp'', ''--hidden''])
   \<and> invoked AppExec (main quiet_env [''pmp'', ''--hidden''])
   \<and> exit_code (main quiet_env [''pmp'', ''--hidden'']) = Some 0"
proof -
  have h1: "''--hidden'' \<in> set (tl [''pmp'', ''--hidden''])" by simp
  have h2: "''--licenses'' \<notin> set (tl [''pmp'', ''--hidden''])" by simp
  have h3: "\<forall>c. raises quiet_env c = None" "ensureUnique_result quiet_env"
    "\<not> checkForUpdates_result quiet_env"
    by (simp_all add: quiet_env_simps)
  have h4: "\<exists>args. appendCommandLineArguments (platform.truncate quiet_env) (utf8_roundtrip quiet_env)
               [''pmp'', ''--hidden''] = Inr args"
    by (simp add: appendCommandLineArguments_def quiet_env_simps)
  from hidden_flag_skips_only_the_ui[OF h1, of quiet_env] h2 h3 h4
  have "\<not> invoked LoadUI (main quiet_env [''pmp'', ''--hidden''])
   \<and> invoked ComponentInitialize (main quiet_env [''pmp'', ''--hidden''])
   \<and> invoked AppExec (main quiet_env [''pmp'', ''--hidden''])
   \<and> exit_code (main quiet_env [''pmp'', ''--hidden'']) = Some 0"
    by (simp add: quiet_env_simps)
  with h1 h2 h3 h4 show ?thesis by blast
qed

text \<open>
  The claim as it was written lets every run with \<^verbatim>\<open>--hidden\<close> go through the whole
  startup. With \<^verbatim>\<open>--licenses\<close> behind it, the run prints two lines and ends.
\<close>

theorem hidden_with_licenses_counterexample:
  "trace (main quiet_env [''pmp'', ''--hidden'', ''--licenses'']) =
     [Stdout (''Starting hidden'' @ newline), Stdout (''licenses'' @ newline)]"
proof -
  have t: "main_try quiet_env [''pmp'', ''--hidden'', ''--licenses''] (initial_run quiet_env)
      = (initial_run quiet_env)\<lparr>startHidden := True,
           trace := [Stdout (''Starting hidden'' @ newline), Stdout (''licenses'' @ newline)],
           status := Returned 0\<rparr>"
    by (simp add: main_try_def step_scan_flags initial_run_simps stdout_def return_with_def
        quiet_env_simps seq_stopped del: seq.simps(2))
  then have "main quiet_env [''pmp'', ''--hidden'', ''--licenses'']
      = main_try quiet_env [''pmp'', ''--hidden'', ''--licenses''] (initial_run quiet_env)"
    by (intro main_not_thrown) simp
  with t show ?thesis by simp
qed

section \<open>Properties of the command line\<close>

text \<open>
  Claim C6 says that every argument vector is copied unchanged, followed by the fixed
  arguments. The code does so only while the new vector has at most 16 entries and each
  entry at most 255 bytes (\<open>appendCommandLineArguments_in_range\<close>). With the program name
  and fourteen arguments the new vector has 17 entries, and the loop writes
  \<^verbatim>\<open>newArgs[16]\<close>, behind the end of the array.
\<close>

theorem fifteen_arguments_overflow_newArgs:
  "appendCommandLineArguments (platform.truncate quiet_env) (utf8_roundtrip quiet_env)
     [''pmp'', ''a1'', ''a2'', ''a3'', ''a4'', ''a5'', ''a6'', ''a7'', ''a8'', ''a9'', ''a10'',
      ''a11'', ''a12'', ''a13'', ''a14'']
   = Inl NewArgsOverflow"
  by (simp add: appendCommandLineArguments_def quiet_env_simps)

section \<open>Properties of the logger configuration\<close>

text \<open>
  Claim C9. The file destination that \<^verbatim>\<open>initLogger\<close> adds has a size bound of
  \<open>1024 * 1024\<close> bytes, keeps 9 old files and rotates on open. With the rotation of the
  specification, a record that takes the active file past the bound rotates it into the
  first slot and opens an empty file, a record that does not is appended, never more than
  9 rotated files remain, and after any number of rotations in a row the rotated files
  are the 9 most recent ones.
\<close>

theorem initLogger_rotation_policy:
  "max_size_bytes (file_dest path lg) = 1024 * 1024
   \<and> max_old_log_count (file_dest path lg) = 9
   \<and> rotation_on_open (file_dest path lg)
   \<and> (length (active d) + length l > 1024 * 1024 \<longrightarrow>
        write_record (file_dest path lg) l d
          = \<lparr>active = [], rotated = take 9 ((active d @ l) # rotated d)\<rparr>)
   \<and> (length (active d) + length l \<le> 1024 * 1024 \<longrightarrow>
        write_record (file_dest path lg) l d = d\<lparr>active := active d @ l\<rparr>)
   \<and> (length (rotated d) \<le> 9 \<longrightarrow>
        length (rotated (write_records (file_dest path lg) ls d)) \<le> 9)
   \<and> ((\<forall>l \<in> set ls. length l > 1024 * 1024) \<and> ls \<noteq> [] \<longrightarrow>
        write_records (file_dest path lg) ls \<lparr>active = [], rotated = []\<rparr>
          = \<lparr>active = [], rotated = take 9 (rev ls)\<rparr>)"
proof -
  have d: "file_dest path lg = \<lparr>log_path = path, rotation_on_open = True,
      max_size_bytes = 1024 * 1024, max_old_log_count = 9\<rparr>"
    by (simp add: file_dest_def initLogger_def Let_def)
  have 1: "max_size_bytes (file_dest path lg) = 1024 * 1024"
    "max_old_log_count (file_dest path lg) = 9" "rotation_on_open (file_dest path lg)"
    by (simp_all add: d)
  have 2: "length (active d) + length l > 1024 * 1024 \<longrightarrow>
        write_record (file_dest path lg) l d
          = \<lparr>active = [], rotated = take 9 ((active d @ l) # rotated d)\<rparr>"
    by (simp add: write_record_def rotate_def Let_def 1)
  have 3: "length (active d) + length l \<le> 1024 * 1024 \<longrightarrow>
        write_record (file_dest path lg) l d = d\<lparr>active := active d @ l\<rparr>"
    by (simp add: write_record_def rotate_def Let_def 1)
  have 4: "length (rotated d) \<le> 9 \<longrightarrow>
        length (rotated (write_records (file_dest path lg) ls d)) \<le> 9"
    using write_records_keeps_bound[of d "file_dest path lg" ls] by (simp add: 1)
  have 5: "(\<forall>l \<in> set ls. length l > 1024 * 1024) \<and> ls \<noteq> [] \<longrightarrow>
        write_records (file_dest path lg) ls \<lparr>active = [], rotated = []\<rparr>
          = \<lparr>active = [], rotated = take 9 (rev ls)\<rparr>"
    using write_records_all_rotate[of ls "file_dest path lg" "[]"] by (simp add: 1)
  from 1 2 3 4 5 show ?thesis by blast
qed

theorem initLogger_rotation_policy_witness:
  "length (active \<lparr>active = [], rotated = []\<rparr>) + length (replicate 1048577 (CHR ''a''))
     > 1024 * 1024
   \<and> write_record (file_dest ''pmp.log'' (logger0 quiet_env)) (replicate 1048577 (CHR ''a''))
        \<lparr>active = [], rotated = []\<rparr>
      = \<lparr>active = [],
         rotated = take 9 ((active \<lparr>active = [], rotated = []\<rparr> @ replicate 1048577 (CHR ''a''))
                           # rotated \<lparr>active = [], rotated = []\<rparr>)\<rparr>
   \<and> length (active \<lparr>active = ''first'', rotated = [''old'']\<rparr>) + length ''second''
     \<le> 1024 * 1024
   \<and> write_record (file_dest ''pmp.log'' (logger0 quiet_env)) ''second''
        \<lparr>active = ''first'', rotated = [''old'']\<rparr>
      = \<lparr>active = ''first'', rotated = [''old'']\<rparr>
          \<lparr>active := active \<lparr>active = ''first'', rotated = [''old'']\<rparr> @ ''second''\<rparr>
   \<and> length (rotated \<lparr>active = ''first'', rotated = [''old'']\<rparr>) \<le> 9
   \<and> length (rotated (write_records (file_dest ''pmp.log'' (logger0 quiet_env))
                 [''second'', ''third''] \<lparr>active = ''first'', rotated = [''old'']\<rparr>)) \<le> 9"
proof -
  let ?dest = "file_dest ''pmp.log'' (logger0 quiet_env)"
  let ?d0 = "\<lparr>active = [], rotated = []\<rparr> :: log_dir"
  let ?d1 = "\<lparr>active = ''first'', rotated = [''old'']\<rparr> :: log_dir"
  let ?big = "replicate 1048577 (CHR ''a'')"
  have h1: "length (active ?d0) + length ?big > 1024 * 1024"
    by simp
  have h2: "length (active ?d1) + length ''second'' \<le> 1024 * 1024" by simp
  have h3: "length (rotated ?d1) \<le> 9" by simp
  from initLogger_rotation_policy[of "''pmp.log''" "logger0 quiet_env" ?d0 ?big] h1
  have c1: "write_record ?dest ?big ?d0
      = \<lparr>active = [], rotated = take 9 ((active ?d0 @ ?big) # rotated ?d0)\<rparr>"
    by blast
  from initLogger_rotation_policy[of "''pmp.log''" "logger0 quiet_env" ?d1 "''second''"
      "[''second'', ''third'']"] h2 h3
  have c2: "write_record ?dest ''second'' ?d1 = ?d1\<lparr>active := active ?d1 @ ''second''\<rparr>"
    and c3: "length (rotated (write_records ?dest [''second'', ''third''] ?d1)) \<le> 9"
    by blast+
  from h1 c1 h2 c2 h3 c3 show ?thesis by blast
qed

end
